theory Spec2Isabelle
  imports Main "HOL-Library.Word"
begin

unbundle bit_operations_syntax

section \<open>Garbage collector (runtime/src/gc.c, runtime/include/gc.h)\<close>

text \<open>
  Target is LP64: \<open>size_t\<close> and pointers are 64-bit words, \<open>uint32_t\<close> is a 32-bit
  word. Pointer comparison is the unsigned order on words and \<open>NULL\<close> is the word 0.
  Word addition wraps, so every overflow of the source is a visible branch of the model.
\<close>

type_synonym addr = "64 word"
type_synonym size_t = "64 word"

text \<open>\<open>struct gc_header\<close>: flags, size, next. The field \<open>size\<close> is named \<open>obj_size\<close>
  and \<open>next\<close> is named \<open>next_hdr\<close> here.\<close>

record gc_header_t =
  flags :: "32 word"
  obj_size :: size_t
  next_hdr :: addr

text \<open>\<open>sizeof(gc_header_t)\<close> on LP64: 4 bytes of flags, 4 of padding, 8 of size, 8 of next.\<close>

definition sizeof_gc_header_t :: size_t where
  "sizeof_gc_header_t = 24"

definition GC_FLAG_MARKED :: "32 word" where
  "GC_FLAG_MARKED = 0x01"

definition GC_FLAG_OBJECT :: "32 word" where
  "GC_FLAG_OBJECT = 0x10"

text \<open>\<open>gc_heap_t\<close>. The root array is the list \<open>roots\<close>; \<open>root_count\<close> is its length.\<close>

record gc_heap_t =
  heap_start :: addr
  heap_end :: addr
  heap_size :: size_t
  free_ptr :: addr
  objects :: addr
  object_count :: size_t
  roots :: "addr list"
  root_capacity :: size_t
  gc_running :: bool

text \<open>\<open>gc_stats_t\<close>; the two fields that share a name with a heap field carry the prefix
  \<open>stats_\<close>.\<close>

record gc_stats_t =
  stats_heap_size :: size_t
  used_bytes :: size_t
  free_bytes :: size_t
  stats_object_count :: size_t
  collection_count :: size_t
  total_allocated :: size_t
  total_collected :: size_t

text \<open>
  The arena is raw memory. The model keeps the part of it that the collector reads and
  writes, the object headers, as a store from the address of a header to its contents:
  \<open>hdrs s a = Some x\<close> when \<open>gc_alloc\<close> has laid out a header at \<open>a\<close>, and \<open>None\<close>
  when the bytes at \<open>a\<close> are something else (payload, the inside of another header,
  memory never handed out, memory before the arena). A store of separate headers is the
  memory of the program as long as the headers in it do not overlap; \<open>gc_wf\<close> below says
  so.
\<close>

type_synonym header_store = "addr \<rightharpoonup> gc_header_t"

text \<open>
  The collector follows pointers it was given (roots, \<open>next\<close> fields) without knowing
  what they point to. When it reads or writes a header field at an address that holds no
  header, it accesses bytes that belong to another object or to none, which is undefined
  in C: the program goes on with whatever bytes are there, may corrupt a neighbouring
  header, and may crash later. The model does not follow it there and ends in
  \<open>No_Header a\<close>, \<open>a\<close> being the address taken for a header.
\<close>

datatype gc_fault = No_Header addr

text \<open>
  The global state of gc.c: the pointer \<open>gc_heap\<close> (\<open>None\<close> is \<open>NULL\<close>), the static
  \<open>gc_stats\<close>, and the headers in the arena.
\<close>

record gc_state =
  gc_heap :: "gc_heap_t option"
  gc_stats :: gc_stats_t
  hdrs :: header_store

text \<open>
  \<open>gc_init\<close>. The three \<open>malloc\<close> calls are the environment's: \<open>heap_ok\<close> says
  whether the heap structure was allocated, \<open>arena\<close> is the address returned for the
  arena (0 on failure), \<open>roots_ok\<close> says whether the root array was allocated. The arena
  comes fresh from \<open>malloc\<close>: it holds no header yet.
\<close>

definition gc_init :: "gc_state \<Rightarrow> size_t \<Rightarrow> bool \<Rightarrow> addr \<Rightarrow> bool \<Rightarrow> bool \<times> gc_state" where
  "gc_init s hsize heap_ok arena roots_ok =
     (if gc_heap s \<noteq> None then (False, s)
      else if \<not> heap_ok then (False, s)
      else if arena = 0 then (False, s)
      else if \<not> roots_ok then (False, s)
      else (True,
        s\<lparr>gc_heap := Some \<lparr>heap_start = arena, heap_end = arena + hsize, heap_size = hsize,
                            free_ptr = arena, objects = 0, object_count = 0, roots = [],
                            root_capacity = 64, gc_running = False\<rparr>,
          gc_stats := (gc_stats s)\<lparr>stats_heap_size := hsize, used_bytes := 0,
                                    free_bytes := hsize, collection_count := 0\<rparr>,
          hdrs := Map.empty\<rparr>))"

definition gc_is_heap_ptr :: "gc_state \<Rightarrow> addr \<Rightarrow> bool" where
  "gc_is_heap_ptr s ptr =
     (case gc_heap s of
        None \<Rightarrow> False
      | Some h \<Rightarrow> if ptr = 0 then False else heap_start h \<le> ptr \<and> ptr < heap_end h)"

definition gc_get_header :: "gc_state \<Rightarrow> addr \<Rightarrow> addr" where
  "gc_get_header s ptr =
     (if \<not> gc_is_heap_ptr s ptr then 0 else ptr - sizeof_gc_header_t)"

text \<open>\<open>gc_mark_object\<close>. The test and the update of \<open>header->flags\<close> need a header at
  \<open>ptr - sizeof(gc_header_t)\<close>.\<close>

definition gc_mark_object :: "gc_state \<Rightarrow> addr \<Rightarrow> gc_fault + gc_state" where
  "gc_mark_object s ptr =
     (if ptr = 0 then Inr s
      else if \<not> gc_is_heap_ptr s ptr then Inr s
      else let header = gc_get_header s ptr in
        if header = 0 then Inr s
        else (case hdrs s header of
                None \<Rightarrow> Inl (No_Header header)
              | Some x \<Rightarrow>
                  if flags x AND GC_FLAG_MARKED \<noteq> 0 then Inr s
                  else Inr (s\<lparr>hdrs := (hdrs s)(header \<mapsto>
                              x\<lparr>flags := flags x OR GC_FLAG_MARKED\<rparr>)\<rparr>)))"

text \<open>First loop of \<open>gc_mark\<close>: walk the object list from \<open>current\<close> and clear the mark bit.
  The walk does not end on a cyclic list; then the result is \<open>None\<close>.\<close>

partial_function (option) clear_marks :: "header_store \<Rightarrow> addr \<Rightarrow> (gc_fault + header_store) option" where
  "clear_marks m current =
     (if current = 0 then Some (Inr m)
      else (case m current of
              None \<Rightarrow> Some (Inl (No_Header current))
            | Some x \<Rightarrow>
                clear_marks (m(current \<mapsto> x\<lparr>flags := flags x AND NOT GC_FLAG_MARKED\<rparr>))
                  (next_hdr x)))"

text \<open>Second loop of \<open>gc_mark\<close>: every non-null root, in index order.\<close>

fun mark_roots :: "gc_state \<Rightarrow> addr list \<Rightarrow> gc_fault + gc_state" where
  "mark_roots s [] = Inr s"
| "mark_roots s (r # rs) =
     (if r \<noteq> 0
      then (case gc_mark_object s r of
              Inl e \<Rightarrow> Inl e
            | Inr s' \<Rightarrow> mark_roots s' rs)
      else mark_roots s rs)"

definition gc_mark :: "gc_state \<Rightarrow> (gc_fault + gc_state) option" where
  "gc_mark s =
     (case gc_heap s of
        None \<Rightarrow> Some (Inr s)
      | Some h \<Rightarrow>
          (case clear_marks (hdrs s) (objects h) of
             None \<Rightarrow> None
           | Some (Inl e) \<Rightarrow> Some (Inl e)
           | Some (Inr m) \<Rightarrow> Some (mark_roots (s\<lparr>hdrs := m\<rparr>) (roots h))))"

text \<open>
  \<open>gc_header_t** current\<close> in \<open>gc_sweep\<close> points either to the list head
  \<open>gc_heap->objects\<close> or to the \<open>next\<close> field of a header. \<open>deref\<close> is \<open>*current\<close> and
  \<open>store_link\<close> is the assignment \<open>*current = v\<close>.
\<close>

datatype link = Objects | NextOf addr

definition deref :: "gc_heap_t \<Rightarrow> header_store \<Rightarrow> link \<Rightarrow> gc_fault + addr" where
  "deref h m l =
     (case l of
        Objects \<Rightarrow> Inr (objects h)
      | NextOf a \<Rightarrow> (case m a of None \<Rightarrow> Inl (No_Header a) | Some y \<Rightarrow> Inr (next_hdr y)))"

definition store_link :: "gc_heap_t \<Rightarrow> header_store \<Rightarrow> link \<Rightarrow> addr \<Rightarrow> gc_heap_t \<times> header_store" where
  "store_link h m l v =
     (case l of
        Objects \<Rightarrow> (h\<lparr>objects := v\<rparr>, m)
      | NextOf a \<Rightarrow> (h, m(a := map_option (\<lambda>y. y\<lparr>next_hdr := v\<rparr>) (m a))))"

text \<open>The loop of \<open>gc_sweep\<close>, on the heap structure, the header store, \<open>current\<close> and
  \<open>collected_bytes\<close>.\<close>

partial_function (option) sweep_loop ::
  "gc_heap_t \<Rightarrow> header_store \<Rightarrow> link \<Rightarrow> size_t \<Rightarrow> (gc_fault + gc_heap_t \<times> header_store \<times> size_t) option" where
  "sweep_loop h m current collected_bytes =
     (case deref h m current of
        Inl e \<Rightarrow> Some (Inl e)
      | Inr header \<Rightarrow>
          if header = 0 then Some (Inr (h, m, collected_bytes))
          else (case m header of
                  None \<Rightarrow> Some (Inl (No_Header header))
                | Some x \<Rightarrow>
                    if flags x AND GC_FLAG_MARKED = 0 then
                      (case store_link h m current (next_hdr x) of
                         (h', m') \<Rightarrow>
                           sweep_loop (h'\<lparr>object_count := object_count h' - 1\<rparr>) m' current
                             (collected_bytes + obj_size x))
                    else sweep_loop h m (NextOf header) collected_bytes))"

definition gc_sweep :: "gc_state \<Rightarrow> (gc_fault + gc_state) option" where
  "gc_sweep s =
     (case gc_heap s of
        None \<Rightarrow> Some (Inr s)
      | Some h \<Rightarrow>
          (case sweep_loop h (hdrs s) Objects 0 of
             None \<Rightarrow> None
           | Some (Inl e) \<Rightarrow> Some (Inl e)
           | Some (Inr (h', m', collected_bytes)) \<Rightarrow>
               Some (Inr (s\<lparr>gc_heap := Some h', hdrs := m',
                       gc_stats := (gc_stats s)\<lparr>total_collected :=
                          total_collected (gc_stats s) + collected_bytes\<rparr>\<rparr>))))"

text \<open>\<open>gc_heap->gc_running = b\<close>.\<close>

definition set_gc_running :: "bool \<Rightarrow> gc_state \<Rightarrow> gc_state" where
  "set_gc_running b s = s\<lparr>gc_heap := map_option (\<lambda>h. h\<lparr>gc_running := b\<rparr>) (gc_heap s)\<rparr>"

text \<open>\<open>gc_collect\<close>: \<open>None\<close> when a loop does not end, \<open>Some (Inl e)\<close> when the collector
  leaves the headers, \<open>Some (Inr s')\<close> when it returns in state \<open>s'\<close>.\<close>

definition gc_collect :: "gc_state \<Rightarrow> (gc_fault + gc_state) option" where
  "gc_collect s =
     (case gc_heap s of
        None \<Rightarrow> Some (Inr s)
      | Some h \<Rightarrow>
          if gc_running h then Some (Inr s)
          else (case gc_mark (set_gc_running True s) of
                  None \<Rightarrow> None
                | Some (Inl e) \<Rightarrow> Some (Inl e)
                | Some (Inr s1) \<Rightarrow>
                    (case gc_sweep s1 of
                       None \<Rightarrow> None
                     | Some (Inl e) \<Rightarrow> Some (Inl e)
                     | Some (Inr s2) \<Rightarrow>
                         Some (Inr ((set_gc_running False s2)\<lparr>gc_stats := (gc_stats s2)
                                 \<lparr>collection_count := collection_count (gc_stats s2) + 1\<rparr>\<rparr>)))))"

text \<open>The part of \<open>gc_alloc\<close> after the space check: bump, header, list head, statistics.\<close>

definition bump_alloc :: "gc_state \<Rightarrow> gc_heap_t \<Rightarrow> size_t \<Rightarrow> 32 word \<Rightarrow> addr \<times> gc_state" where
  "bump_alloc s h sz fl =
     (let total_size = sizeof_gc_header_t + sz;
          header = free_ptr h;
          st = gc_stats s
      in (header + sizeof_gc_header_t,
          s\<lparr>gc_heap := Some (h\<lparr>free_ptr := free_ptr h + total_size, objects := header,
                                object_count := object_count h + 1\<rparr>),
            hdrs := (hdrs s)(header \<mapsto> \<lparr>flags = fl, obj_size = sz, next_hdr = objects h\<rparr>),
            gc_stats := st\<lparr>used_bytes := used_bytes st + total_size,
                            free_bytes := free_bytes st - total_size,
                            total_allocated := total_allocated st + sz\<rparr>\<rparr>))"

text \<open>\<open>gc_alloc\<close>: the returned pointer (0 is \<open>NULL\<close>) and the new state; \<open>None\<close> or a
  fault when the collection it starts does not return.\<close>

definition gc_alloc :: "gc_state \<Rightarrow> size_t \<Rightarrow> 32 word \<Rightarrow> (gc_fault + addr \<times> gc_state) option" where
  "gc_alloc s sz fl =
     (case gc_heap s of
        None \<Rightarrow> Some (Inr (0, s))
      | Some h \<Rightarrow>
          let total_size = sizeof_gc_header_t + sz in
          if free_ptr h + total_size > heap_end h then
            (case gc_collect s of
               None \<Rightarrow> None
             | Some (Inl e) \<Rightarrow> Some (Inl e)
             | Some (Inr s1) \<Rightarrow>
                 (case gc_heap s1 of
                    None \<Rightarrow> Some (Inr (0, s1))
                  | Some h1 \<Rightarrow>
                      if free_ptr h1 + total_size > heap_end h1 then Some (Inr (0, s1))
                      else Some (Inr (bump_alloc s1 h1 sz fl))))
          else Some (Inr (bump_alloc s h sz fl)))"

text \<open>\<open>gc_add_root\<close>; \<open>realloc_ok\<close> is the outcome of \<open>realloc\<close> when the array must grow.\<close>

definition gc_add_root :: "gc_state \<Rightarrow> addr \<Rightarrow> bool \<Rightarrow> bool \<times> gc_state" where
  "gc_add_root s ptr realloc_ok =
     (case gc_heap s of
        None \<Rightarrow> (False, s)
      | Some h \<Rightarrow>
          if ptr = 0 then (False, s)
          else if ptr \<in> set (roots h) then (True, s)
          else if of_nat (length (roots h)) \<ge> root_capacity h then
            (if \<not> realloc_ok then (False, s)
             else (True, s\<lparr>gc_heap := Some (h\<lparr>root_capacity := root_capacity h * 2,
                                               roots := roots h @ [ptr]\<rparr>)\<rparr>))
          else (True, s\<lparr>gc_heap := Some (h\<lparr>roots := roots h @ [ptr]\<rparr>)\<rparr>))"

subsection \<open>Well-formed heaps\<close>

text \<open>
  \<open>obj_list m p ps\<close>: following \<open>next\<close> from \<open>p\<close> in the header store \<open>m\<close> visits exactly
  the headers \<open>ps\<close>, in this order, and then reaches \<open>NULL\<close>.
\<close>

fun obj_list :: "header_store \<Rightarrow> addr \<Rightarrow> addr list \<Rightarrow> bool" where
  "obj_list m p [] = (p = 0)"
| "obj_list m p (q # qs) =
     (p \<noteq> 0 \<and> p = q \<and> (case m q of None \<Rightarrow> False | Some x \<Rightarrow> obj_list m (next_hdr x) qs))"

definition marked :: "header_store \<Rightarrow> addr \<Rightarrow> bool" where
  "marked m a = (case m a of None \<Rightarrow> False | Some x \<Rightarrow> flags x AND GC_FLAG_MARKED \<noteq> 0)"

definition unmark :: "gc_header_t \<Rightarrow> gc_header_t" where
  "unmark x = x\<lparr>flags := flags x AND NOT GC_FLAG_MARKED\<rparr>"

text \<open>The first address behind the object whose header is at \<open>q\<close>, as a natural number.\<close>

definition obj_end :: "header_store \<Rightarrow> addr \<Rightarrow> nat" where
  "obj_end m q =
     (case m q of
        None \<Rightarrow> unat q
      | Some x \<Rightarrow> unat q + unat sizeof_gc_header_t + unat (obj_size x))"

text \<open>
  \<open>root_ok s r\<close>: the root \<open>r\<close> is one that \<open>gc_mark_object\<close> can follow. Either it fails
  \<open>gc_is_heap_ptr\<close> and is skipped, or it is the payload pointer of an object, so that
  \<open>r - sizeof(gc_header_t)\<close> is the address of a header.
\<close>

definition root_ok :: "gc_state \<Rightarrow> addr \<Rightarrow> bool" where
  "root_ok s r = (if gc_is_heap_ptr s r then r - sizeof_gc_header_t \<in> dom (hdrs s) else True)"

text \<open>
  The state of an initialised heap between two calls, as \<open>gc_init\<close>, \<open>gc_alloc\<close> and
  \<open>gc_collect\<close> leave it: no collection is running, the arena does not start at \<open>NULL\<close>,
  the bump cursor lies in the arena, and the object list \<open>ps\<close> ends in \<open>NULL\<close>. Every
  object ever allocated, linked or not, lies in the part of the arena already handed out,
  and an object ends before the header of any object behind it begins: headers do not
  overlap, neither each other nor a payload. Every root is the payload pointer of an
  allocated object or lies outside the arena, which is what the callers of \<open>gc_add_root\<close>
  must see to.
\<close>

definition gc_wf :: "gc_state \<Rightarrow> addr list \<Rightarrow> bool" where
  "gc_wf s ps =
     (case gc_heap s of
        None \<Rightarrow> False
      | Some h \<Rightarrow>
          \<not> gc_running h \<and> heap_start h \<noteq> 0 \<and>
          heap_start h \<le> free_ptr h \<and> free_ptr h \<le> heap_end h \<and>
          obj_list (hdrs s) (objects h) ps \<and>
          (\<forall>q \<in> dom (hdrs s). heap_start h \<le> q \<and> obj_end (hdrs s) q \<le> unat (free_ptr h)) \<and>
          (\<forall>a \<in> dom (hdrs s). \<forall>b \<in> dom (hdrs s). a < b \<longrightarrow> obj_end (hdrs s) a \<le> unat b) \<and>
          (\<forall>r \<in> set (roots h). root_ok s r))"

text \<open>
  \<open>rooted s q\<close>: some entry \<open>r\<close> of the root array passes \<open>gc_is_heap_ptr\<close> and is the
  payload pointer of the header \<open>q\<close>. These are the headers \<open>gc_mark\<close> marks.
\<close>

definition rooted :: "gc_state \<Rightarrow> addr \<Rightarrow> bool" where
  "rooted s q =
     (case gc_heap s of
        None \<Rightarrow> False
      | Some h \<Rightarrow> \<exists>r \<in> set (roots h). gc_is_heap_ptr s r \<and> q = r - sizeof_gc_header_t)"

text \<open>What \<open>sweep_loop\<close> leaves behind when it starts at \<open>cur\<close> in front of the list \<open>ps\<close>:
  the marked headers of \<open>ps\<close> are linked, no header appears, disappears, or changes its
  flags or size, and only headers of \<open>ps\<close> and the one \<open>cur\<close> lies in change at all.\<close>

definition swept ::
  "gc_heap_t \<Rightarrow> header_store \<Rightarrow> link \<Rightarrow> addr list \<Rightarrow>
   (gc_fault + gc_heap_t \<times> header_store \<times> size_t) option \<Rightarrow> bool" where
  "swept h m cur ps r =
     (\<exists>h' m' c' p.
        r = Some (Inr (h', m', c')) \<and>
        deref h' m' cur = Inr p \<and> obj_list m' p (filter (marked m) ps) \<and>
        (\<forall>a. map_option flags (m' a) = map_option flags (m a)) \<and>
        (\<forall>a. map_option obj_size (m' a) = map_option obj_size (m a)) \<and>
        (\<forall>a. a \<notin> set ps \<and> cur \<noteq> NextOf a \<longrightarrow> m' a = m a) \<and>
        (cur \<noteq> Objects \<longrightarrow> objects h' = objects h) \<and>
        h' = h\<lparr>objects := objects h', object_count := object_count h'\<rparr>)"

text \<open>What one collection changes: the list head, the object count, the two collection
  counters, and nothing else of the heap structure or the statistics; no header appears,
  disappears or changes its size.\<close>

definition collected :: "gc_state \<Rightarrow> gc_state \<Rightarrow> bool" where
  "collected s s' =
     (case (gc_heap s, gc_heap s') of
        (Some h, Some h') \<Rightarrow>
          h' = h\<lparr>objects := objects h', object_count := object_count h'\<rparr> \<and>
          gc_stats s' = (gc_stats s)\<lparr>total_collected := total_collected (gc_stats s'),
                                     collection_count := collection_count (gc_stats s) + 1\<rparr> \<and>
          (\<forall>a. map_option obj_size (hdrs s' a) = map_option obj_size (hdrs s a))
      | _ \<Rightarrow> False)"

text \<open>The address arithmetic of an allocation of \<open>sz\<close> bytes stays below \<open>2 ^ 64\<close>.\<close>

definition no_overflow :: "gc_heap_t \<Rightarrow> size_t \<Rightarrow> bool" where
  "no_overflow h sz = (unat (free_ptr h) + unat sizeof_gc_header_t + unat sz < 2 ^ 64)"

text \<open>
  The statistics are exact: as natural numbers, \<open>used_bytes\<close> is the distance from the
  arena start to the bump cursor, \<open>free_bytes\<close> the distance from the cursor to the arena
  end, and \<open>heap_size\<close> the length of the arena. Then
  \<open>used_bytes + free_bytes = heap_size\<close> without any wrap-around.
\<close>

definition stats_exact :: "gc_state \<Rightarrow> bool" where
  "stats_exact s =
     (case gc_heap s of
        None \<Rightarrow> False
      | Some h \<Rightarrow>
          unat (used_bytes (gc_stats s)) + unat (heap_start h) = unat (free_ptr h) \<and>
          unat (free_bytes (gc_stats s)) + unat (free_ptr h) = unat (heap_end h) \<and>
          unat (stats_heap_size (gc_stats s)) + unat (heap_start h) = unat (heap_end h))"

text \<open>The head of the object list, read from a state.\<close>

definition objects_head :: "gc_state \<Rightarrow> addr option" where
  "objects_head s = map_option objects (gc_heap s)"

subsection \<open>Concrete heaps\<close>

text \<open>The state before \<open>gc_init\<close>: no heap, zeroed statistics, no header anywhere.\<close>

definition gc_uninit :: gc_state where
  "gc_uninit =
     \<lparr>gc_heap = None,
      gc_stats = \<lparr>stats_heap_size = 0, used_bytes = 0, free_bytes = 0, stats_object_count = 0,
                  collection_count = 0, total_allocated = 0, total_collected = 0\<rparr>,
      hdrs = Map.empty\<rparr>"

text \<open>After \<open>gc_init(24)\<close> with the arena at address \<open>0x1000\<close>: room for one header.\<close>

definition gc_tiny :: gc_state where
  "gc_tiny =
     gc_uninit\<lparr>gc_heap := Some \<lparr>heap_start = 0x1000, heap_end = 0x1018, heap_size = 24,
                  free_ptr = 0x1000, objects = 0, object_count = 0, roots = [],
                  root_capacity = 64, gc_running = False\<rparr>,
               gc_stats := (gc_stats gc_uninit)\<lparr>stats_heap_size := 24, free_bytes := 24\<rparr>\<rparr>"

text \<open>Then \<open>gc_alloc(0, 0)\<close>: one object of size 0 whose header fills the arena.\<close>

definition gc_tiny_full :: gc_state where
  "gc_tiny_full =
     gc_tiny\<lparr>gc_heap := Some \<lparr>heap_start = 0x1000, heap_end = 0x1018, heap_size = 24,
                  free_ptr = 0x1018, objects = 0x1000, object_count = 1, roots = [],
                  root_capacity = 64, gc_running = False\<rparr>,
             gc_stats := (gc_stats gc_tiny)\<lparr>used_bytes := 24, free_bytes := 0\<rparr>,
             hdrs := [0x1000 \<mapsto> \<lparr>flags = 0, obj_size = 0, next_hdr = 0\<rparr>]\<rparr>"

text \<open>Then \<open>gc_add_root\<close> of the pointer that allocation returned.\<close>

definition gc_tiny_rooted :: gc_state where
  "gc_tiny_rooted =
     gc_tiny_full\<lparr>gc_heap := Some \<lparr>heap_start = 0x1000, heap_end = 0x1018, heap_size = 24,
                  free_ptr = 0x1018, objects = 0x1000, object_count = 1, roots = [0x1018],
                  root_capacity = 64, gc_running = False\<rparr>\<rparr>"

text \<open>After \<open>gc_init(23)\<close> with the arena at address \<open>0x1000\<close>: no room for a header.\<close>

definition gc_short :: gc_state where
  "gc_short =
     gc_uninit\<lparr>gc_heap := Some \<lparr>heap_start = 0x1000, heap_end = 0x1017, heap_size = 23,
                  free_ptr = 0x1000, objects = 0, object_count = 0, roots = [],
                  root_capacity = 64, gc_running = False\<rparr>,
               gc_stats := (gc_stats gc_uninit)\<lparr>stats_heap_size := 23, free_bytes := 23\<rparr>\<rparr>"

text \<open>After \<open>gc_init(1024)\<close> with the arena at address \<open>0x1000\<close>.\<close>

definition gc_fresh :: gc_state where
  "gc_fresh =
     gc_uninit\<lparr>gc_heap := Some \<lparr>heap_start = 0x1000, heap_end = 0x1400, heap_size = 1024,
                  free_ptr = 0x1000, objects = 0, object_count = 0, roots = [],
                  root_capacity = 64, gc_running = False\<rparr>,
               gc_stats := (gc_stats gc_uninit)\<lparr>stats_heap_size := 1024, free_bytes := 1024\<rparr>\<rparr>"

text \<open>Then \<open>gc_alloc(8, 0)\<close>, which returns \<open>0x1018\<close>.\<close>

definition gc_one :: gc_state where
  "gc_one =
     \<lparr>gc_heap = Some \<lparr>heap_start = 0x1000, heap_end = 0x1400, heap_size = 1024,
                  free_ptr = 0x1020, objects = 0x1000, object_count = 1, roots = [],
                  root_capacity = 64, gc_running = False\<rparr>,
      gc_stats = \<lparr>stats_heap_size = 1024, used_bytes = 32, free_bytes = 992,
                  stats_object_count = 0, collection_count = 0, total_allocated = 8,
                  total_collected = 0\<rparr>,
      hdrs = [0x1000 \<mapsto> \<lparr>flags = 0, obj_size = 8, next_hdr = 0\<rparr>]\<rparr>"

text \<open>Then \<open>gc_alloc(16, 0)\<close>, which returns \<open>0x1038\<close>.\<close>

definition gc_two :: gc_state where
  "gc_two =
     \<lparr>gc_heap = Some \<lparr>heap_start = 0x1000, heap_end = 0x1400, heap_size = 1024,
                  free_ptr = 0x1048, objects = 0x1020, object_count = 2, roots = [],
                  root_capacity = 64, gc_running = False\<rparr>,
      gc_stats = \<lparr>stats_heap_size = 1024, used_bytes = 72, free_bytes = 952,
                  stats_object_count = 0, collection_count = 0, total_allocated = 24,
                  total_collected = 0\<rparr>,
      hdrs = [0x1000 \<mapsto> \<lparr>flags = 0, obj_size = 8, next_hdr = 0\<rparr>,
              0x1020 \<mapsto> \<lparr>flags = 0, obj_size = 16, next_hdr = 0x1000\<rparr>]\<rparr>"

text \<open>Then \<open>gc_add_root(0x1038)\<close>: two live objects, the second one rooted.\<close>

definition gc_demo :: gc_state where
  "gc_demo =
     gc_two\<lparr>gc_heap := Some \<lparr>heap_start = 0x1000, heap_end = 0x1400, heap_size = 1024,
                  free_ptr = 0x1048, objects = 0x1020, object_count = 2, roots = [0x1038],
                  root_capacity = 64, gc_running = False\<rparr>\<rparr>"

text \<open>
  Then \<open>gc_add_root(0x1028)\<close>, a pointer into the payload of the second object:
  \<open>0x1028 - sizeof(gc_header_t) = 0x1010\<close> lies inside the header at \<open>0x1000\<close>, where
  its \<open>next\<close> field is.
\<close>

definition gc_demo_stray :: gc_state where
  "gc_demo_stray =
     gc_two\<lparr>gc_heap := Some \<lparr>heap_start = 0x1000, heap_end = 0x1400, heap_size = 1024,
                  free_ptr = 0x1048, objects = 0x1020, object_count = 2,
                  roots = [0x1038, 0x1028], root_capacity = 64, gc_running = False\<rparr>\<rparr>"

text \<open>
  \<open>gc_demo\<close> after \<open>gc_alloc(2 ^ 64 - 32, 0)\<close>: \<open>total_size\<close> is \<open>2 ^ 64 - 8\<close>, the bump
  cursor has moved back by 8 bytes, and a third header is linked at \<open>0x1048\<close>. In
  \<open>size_t\<close>, \<open>- 32\<close> is \<open>2 ^ 64 - 32\<close> and \<open>- 8\<close> is \<open>2 ^ 64 - 8\<close>.
\<close>

definition gc_demo_wrapped :: gc_state where
  "gc_demo_wrapped =
     \<lparr>gc_heap = Some \<lparr>heap_start = 0x1000, heap_end = 0x1400, heap_size = 1024,
                  free_ptr = 0x1040, objects = 0x1048, object_count = 3, roots = [0x1038],
                  root_capacity = 64, gc_running = False\<rparr>,
      gc_stats = \<lparr>stats_heap_size = 1024, used_bytes = 64, free_bytes = 960,
                  stats_object_count = 0, collection_count = 0, total_allocated = - 8,
                  total_collected = 0\<rparr>,
      hdrs = [0x1000 \<mapsto> \<lparr>flags = 0, obj_size = 8, next_hdr = 0\<rparr>,
              0x1020 \<mapsto> \<lparr>flags = 0, obj_size = 16, next_hdr = 0x1000\<rparr>,
              0x1048 \<mapsto> \<lparr>flags = 0, obj_size = - 32, next_hdr = 0x1020\<rparr>]\<rparr>"

section \<open>Reactive signals (runtime/src/signals.c, runtime/include/signals.h)\<close>

text \<open>
  Signals live in GC memory and refer to each other by address, so the model keeps them in
  a store from addresses to signal structures. \<open>vela_computed_t\<close> begins with a
  \<open>vela_signal_t\<close> and the code casts between the two; one record holds the fields of
  both, the last two being read and written for computed signals only. The field \<open>value\<close>
  is named \<open>sig_value\<close>. The array \<open>dependents\<close> is a list and \<open>dependent_count\<close> its
  length. Counts and capacities are natural numbers: they count array entries that exist
  in memory and stay far below \<open>2 ^ 64\<close>.
\<close>

record vela_signal_t =
  sig_value :: addr
  dependents :: "addr list"
  dependent_capacity :: nat
  is_computed :: bool
  raw_value :: addr
  compute_fn :: addr
  needs_recompute :: bool

text \<open>\<open>signals_state_t\<close>: \<open>signal_count\<close> and \<open>dirty_count\<close> are the lengths of the two
  lists.\<close>

record signals_state_t =
  all_signals :: "addr list"
  signal_capacity :: nat
  propagation_running :: bool
  dirty_signals :: "addr list"

text \<open>The global pointer \<open>signals_state\<close> (\<open>None\<close> is \<open>NULL\<close>) and the signal store.\<close>

record signals_world =
  signals_state :: "signals_state_t option"
  sigs :: "addr \<Rightarrow> vela_signal_t"

text \<open>
  A \<open>vela_compute_fn\<close> is a pointer to code of the compiled program that takes no argument
  and returns a pointer. The program's code is a parameter of the model: a table from
  function pointers to functions that read the signals and return a value.
\<close>

type_synonym compute_table = "addr \<Rightarrow> signals_world \<Rightarrow> addr"

text \<open>\<open>signals_init\<close>; the three flags are the outcomes of its three \<open>malloc\<close> calls.\<close>

definition signals_init :: "signals_world \<Rightarrow> bool \<Rightarrow> bool \<Rightarrow> bool \<Rightarrow> bool \<times> signals_world" where
  "signals_init w state_ok all_ok dirty_ok =
     (if signals_state w \<noteq> None then (False, w)
      else if \<not> state_ok then (False, w)
      else if \<not> all_ok then (False, w)
      else if \<not> dirty_ok then (False, w)
      else (True, w\<lparr>signals_state := Some \<lparr>all_signals = [], signal_capacity = 64,
                        propagation_running = False, dirty_signals = []\<rparr>\<rparr>))"

text \<open>\<open>signals_register_signal\<close>; \<open>realloc_ok\<close> is the outcome of \<open>realloc\<close> when the
  registry must grow.\<close>

definition signals_register_signal :: "signals_world \<Rightarrow> addr \<Rightarrow> bool \<Rightarrow> bool \<times> signals_world" where
  "signals_register_signal w signal realloc_ok =
     (case signals_state w of
        None \<Rightarrow> (False, w)
      | Some st \<Rightarrow>
          if signal = 0 then (False, w)
          else if length (all_signals st) \<ge> signal_capacity st then
            (if \<not> realloc_ok then (False, w)
             else (True, w\<lparr>signals_state := Some (st\<lparr>signal_capacity := signal_capacity st * 2,
                                all_signals := all_signals st @ [signal]\<rparr>)\<rparr>))
          else (True, w\<lparr>signals_state := Some (st\<lparr>all_signals := all_signals st @ [signal]\<rparr>)\<rparr>))"

text \<open>
  \<open>signal_create\<close>. \<open>signal\<close> is the pointer \<open>vela_gc_alloc\<close> returned (0 on failure),
  \<open>deps_ok\<close> the outcome of the \<open>malloc\<close> of the dependents array, \<open>realloc_ok\<close> that of
  the registry's \<open>realloc\<close>.
\<close>

definition signal_create ::
  "signals_world \<Rightarrow> addr \<Rightarrow> addr \<Rightarrow> bool \<Rightarrow> bool \<Rightarrow> addr \<times> signals_world" where
  "signal_create w initial_value signal deps_ok realloc_ok =
     (case signals_state w of
        None \<Rightarrow> (0, w)
      | Some st \<Rightarrow>
          if signal = 0 then (0, w)
          else
            let w1 = w\<lparr>sigs := (sigs w)(signal := (sigs w signal)\<lparr>sig_value := initial_value,
                         dependents := [], dependent_capacity := 8, is_computed := False,
                         raw_value := initial_value\<rparr>)\<rparr>
            in if \<not> deps_ok then (0, w1)
               else (case signals_register_signal w1 signal realloc_ok of
                       (False, w2) \<Rightarrow> (0, w2)
                     | (True, w2) \<Rightarrow> (signal, w2)))"

definition computed_recompute :: "compute_table \<Rightarrow> signals_world \<Rightarrow> addr \<Rightarrow> signals_world" where
  "computed_recompute fns w computed =
     (if computed = 0 then w
      else if compute_fn (sigs w computed) = 0 then w
      else w\<lparr>sigs := (sigs w)(computed := (sigs w computed)\<lparr>
                 sig_value := fns (compute_fn (sigs w computed)) w,
                 needs_recompute := False\<rparr>)\<rparr>)"

text \<open>\<open>computed_create\<close>, with the same three environment outcomes as \<open>signal_create\<close>.\<close>

definition computed_create ::
  "compute_table \<Rightarrow> signals_world \<Rightarrow> addr \<Rightarrow> addr \<Rightarrow> bool \<Rightarrow> bool \<Rightarrow> addr \<times> signals_world" where
  "computed_create fns w fn computed deps_ok realloc_ok =
     (case signals_state w of
        None \<Rightarrow> (0, w)
      | Some st \<Rightarrow>
          if fn = 0 then (0, w)
          else if computed = 0 then (0, w)
          else
            let w1 = w\<lparr>sigs := (sigs w)(computed := \<lparr>sig_value = 0, dependents = [],
                         dependent_capacity = 8, is_computed = True, raw_value = 0,
                         compute_fn = fn, needs_recompute = True\<rparr>)\<rparr>
            in if \<not> deps_ok then (0, w1)
               else (case signals_register_signal w1 computed realloc_ok of
                       (False, w2) \<Rightarrow> (0, w2)
                     | (True, w2) \<Rightarrow> (computed, computed_recompute fns w2 computed)))"

text \<open>\<open>signal_get_value\<close>: the value returned and the state left.\<close>

definition signal_get_value :: "compute_table \<Rightarrow> signals_world \<Rightarrow> addr \<Rightarrow> addr \<times> signals_world" where
  "signal_get_value fns w signal =
     (if signal = 0 then (0, w)
      else
        let w1 = (if is_computed (sigs w signal) then
                    (if needs_recompute (sigs w signal) then computed_recompute fns w signal
                     else w)
                  else w)
        in (sig_value (sigs w1 signal), w1))"

definition signal_add_dependent ::
  "signals_world \<Rightarrow> addr \<Rightarrow> addr \<Rightarrow> bool \<Rightarrow> bool \<times> signals_world" where
  "signal_add_dependent w signal dependent realloc_ok =
     (if signal = 0 then (False, w)
      else if dependent = 0 then (False, w)
      else
        let sg = sigs w signal in
        if dependent \<in> set (dependents sg) then (True, w)
        else if length (dependents sg) \<ge> dependent_capacity sg then
          (if \<not> realloc_ok then (False, w)
           else (True, w\<lparr>sigs := (sigs w)(signal := sg\<lparr>
                            dependent_capacity := dependent_capacity sg * 2,
                            dependents := dependents sg @ [dependent]\<rparr>)\<rparr>))
        else (True, w\<lparr>sigs := (sigs w)(signal := sg\<lparr>
                         dependents := dependents sg @ [dependent]\<rparr>)\<rparr>))"

text \<open>The body of the last loop of \<open>signal_mark_dirty\<close> before the recursive call: a
  computed dependent is flagged.\<close>

definition flag_dependent :: "signals_world \<Rightarrow> addr \<Rightarrow> signals_world" where
  "flag_dependent w dependent =
     (if is_computed (sigs w dependent)
      then w\<lparr>sigs := (sigs w)(dependent := (sigs w dependent)\<lparr>needs_recompute := True\<rparr>)\<rparr>
      else w)"

text \<open>
  \<open>signal_mark_dirty\<close> calls itself for every dependent, and on a cyclic graph only the
  check of the dirty list stops it. The model bounds the depth of the calls by a number
  \<open>n\<close>: \<open>None\<close> means that \<open>n\<close> nested calls were not enough. \<open>mark_dependents\<close> is the loop
  over the dependents array, which the calls it makes do not change. \<open>realloc_ok\<close> is the
  outcome of every \<open>realloc\<close> of the dirty array during the call.
\<close>

fun signal_mark_dirty :: "nat \<Rightarrow> signals_world \<Rightarrow> addr \<Rightarrow> bool \<Rightarrow> signals_world option"
  and mark_dependents :: "nat \<Rightarrow> signals_world \<Rightarrow> addr list \<Rightarrow> bool \<Rightarrow> signals_world option" where
  "signal_mark_dirty 0 w signal realloc_ok = None"
| "signal_mark_dirty (Suc n) w signal realloc_ok =
     (if signal = 0 then Some w
      else case signals_state w of
        None \<Rightarrow> Some w
      | Some st \<Rightarrow>
          if signal \<in> set (dirty_signals st) then Some w
          else if length (dirty_signals st) \<ge> signal_capacity st \<and> \<not> realloc_ok then Some w
          else
            let st' = st\<lparr>signal_capacity :=
                            (if length (dirty_signals st) \<ge> signal_capacity st
                             then signal_capacity st * 2 else signal_capacity st),
                          dirty_signals := dirty_signals st @ [signal]\<rparr>;
                w' = w\<lparr>signals_state := Some st'\<rparr>
            in mark_dependents n w' (dependents (sigs w' signal)) realloc_ok)"
| "mark_dependents n w [] realloc_ok = Some w"
| "mark_dependents n w (d # ds) realloc_ok =
     (case signal_mark_dirty n (flag_dependent w d) d realloc_ok of
        None \<Rightarrow> None
      | Some w' \<Rightarrow> mark_dependents n w' ds realloc_ok)"

text \<open>The loop of \<open>signals_propagate_changes\<close> over the dirty list.\<close>

fun propagate_loop :: "compute_table \<Rightarrow> signals_world \<Rightarrow> addr list \<Rightarrow> signals_world" where
  "propagate_loop fns w [] = w"
| "propagate_loop fns w (signal # rest) =
     propagate_loop fns
       (if signal \<noteq> 0 \<and> is_computed (sigs w signal) then
          (if needs_recompute (sigs w signal) then computed_recompute fns w signal else w)
        else w)
       rest"

definition signals_propagate_changes :: "compute_table \<Rightarrow> signals_world \<Rightarrow> signals_world" where
  "signals_propagate_changes fns w =
     (case signals_state w of
        None \<Rightarrow> w
      | Some st \<Rightarrow>
          if propagation_running st then w
          else
            let w1 = propagate_loop fns
                       (w\<lparr>signals_state := Some (st\<lparr>propagation_running := True\<rparr>)\<rparr>)
                       (dirty_signals st)
            in w1\<lparr>signals_state := map_option
                     (\<lambda>st1. st1\<lparr>dirty_signals := [], propagation_running := False\<rparr>)
                     (signals_state w1)\<rparr>)"

text \<open>\<open>signal_set_value\<close> returns nothing; the model returns the state it leaves, or \<open>None\<close>
  when the depth bound \<open>n\<close> of \<open>signal_mark_dirty\<close> was too small.\<close>

definition signal_set_value ::
  "nat \<Rightarrow> compute_table \<Rightarrow> signals_world \<Rightarrow> addr \<Rightarrow> addr \<Rightarrow> bool \<Rightarrow> signals_world option" where
  "signal_set_value n fns w signal v realloc_ok =
     (if signal = 0 then Some w
      else if is_computed (sigs w signal) then Some w
      else
        let w1 = w\<lparr>sigs := (sigs w)(signal := (sigs w signal)\<lparr>sig_value := v, raw_value := v\<rparr>)\<rparr>
        in case signal_mark_dirty n w1 signal realloc_ok of
             None \<Rightarrow> None
           | Some w2 \<Rightarrow> Some (signals_propagate_changes fns w2))"

subsection \<open>The program of the propagation scenario\<close>

text \<open>The compute function \<open>() => s.get() * 2\<close>: it calls \<open>signal_get_value\<close> on the plain
  signal \<open>s\<close> (which calls no compute function) and doubles the result.\<close>

definition double_of :: "addr \<Rightarrow> signals_world \<Rightarrow> addr" where
  "double_of s w = fst (signal_get_value (\<lambda>_ _. 0) w s) * 2"

text \<open>The state while a propagation pass is running.\<close>

definition during_propagation :: "signals_world \<Rightarrow> signals_world" where
  "during_propagation w =
     w\<lparr>signals_state := map_option (\<lambda>st. st\<lparr>propagation_running := True\<rparr>) (signals_state w)\<rparr>"

text \<open>The signals state before \<open>signals_init\<close>, with zeroed memory.\<close>

definition signals_uninit :: signals_world where
  "signals_uninit =
     \<lparr>signals_state = None,
      sigs = (\<lambda>_. \<lparr>sig_value = 0, dependents = [], dependent_capacity = 0, is_computed = False,
                    raw_value = 0, compute_fn = 0, needs_recompute = False\<rparr>)\<rparr>"

text \<open>The program table of the scenario: the only compute function, at \<open>0x400000\<close>, doubles
  the signal at \<open>0x2000\<close>.\<close>

definition demo_fns :: compute_table where
  "demo_fns f = (if f = 0x400000 then double_of 0x2000 else (\<lambda>_. 0))"

text \<open>
  After \<open>signals_init\<close>, \<open>signal_create(1)\<close> at \<open>0x2000\<close>, \<open>computed_create\<close> of the
  function at \<open>0x400000\<close> at \<open>0x3000\<close>, and \<open>signal_add_dependent(0x2000, 0x3000)\<close>.
\<close>

definition sig_demo :: signals_world where
  "sig_demo =
     \<lparr>signals_state = Some \<lparr>all_signals = [0x2000, 0x3000], signal_capacity = 64,
                        propagation_running = False, dirty_signals = []\<rparr>,
      sigs = (sigs signals_uninit)
               (0x2000 := \<lparr>sig_value = 1, dependents = [0x3000], dependent_capacity = 8,
                           is_computed = False, raw_value = 1, compute_fn = 0,
                           needs_recompute = False\<rparr>,
                0x3000 := \<lparr>sig_value = 2, dependents = [], dependent_capacity = 8,
                           is_computed = True, raw_value = 0, compute_fn = 0x400000,
                           needs_recompute = False\<rparr>)\<rparr>"

text \<open>A plain signal at \<open>0x2000\<close> whose dependents array is full: eight entries, capacity 8.\<close>

definition sig_full :: signals_world where
  "sig_full =
     \<lparr>signals_state = Some \<lparr>all_signals = [0x2000], signal_capacity = 64,
                        propagation_running = False, dirty_signals = []\<rparr>,
      sigs = (sigs signals_uninit)
               (0x2000 := \<lparr>sig_value = 1,
                           dependents = [0x3000, 0x3100, 0x3200, 0x3300, 0x3400, 0x3500,
                                         0x3600, 0x3700],
                           dependent_capacity = 8, is_computed = False, raw_value = 1,
                           compute_fn = 0, needs_recompute = False\<rparr>)\<rparr>"

text \<open>A call of the \<open>void\<close> function \<open>signal_set_value\<close> is silently ignored when it returns
  and leaves the state \<open>w\<close> it found: the caller is told nothing and sees no change.\<close>

definition silently_ignored :: "signals_world \<Rightarrow> signals_world option \<Rightarrow> bool" where
  "silently_ignored w r = (r = Some w)"

section \<open>Actors (runtime/src/actors.c, runtime/include/actors.h)\<close>

text \<open>
  Every function that touches a mailbox holds its mutex from its first test to its return
  or to its \<open>pthread_cond_wait\<close>, so each call is one atomic step on the queue. A call that
  reaches \<open>pthread_cond_wait\<close> does not return in that step: its result is \<open>Waits\<close>.
\<close>

datatype 'a blocking = Waits | Returns 'a

text \<open>
  \<open>message_queue_t\<close> without its mutex and condition variables. \<open>messages\<close> is the array of
  \<open>capacity\<close> message pointers. The indices are natural numbers: they stay below the
  capacity. A pointer to a queue is an \<open>option\<close>, \<open>None\<close> being \<open>NULL\<close>.
\<close>

record message_queue_t =
  messages :: "addr list"
  count :: nat
  capacity :: nat
  head :: nat
  tail :: nat

text \<open>\<open>message_queue_create\<close>: \<open>array\<close> is the uninitialised array \<open>malloc\<close> returned
  (\<open>None\<close> on failure), \<open>struct_ok\<close> and \<open>sync_ok\<close> the outcomes of the allocation of the
  structure and of the initialisation of the mutex and condition variables.\<close>

definition message_queue_create :: "nat \<Rightarrow> bool \<Rightarrow> addr list option \<Rightarrow> bool \<Rightarrow> message_queue_t option" where
  "message_queue_create cap struct_ok array sync_ok =
     (if \<not> struct_ok then None
      else case array of
        None \<Rightarrow> None
      | Some a \<Rightarrow>
          if \<not> sync_ok then None
          else Some \<lparr>messages = a, count = 0, capacity = cap, head = 0, tail = 0\<rparr>)"

definition message_queue_empty :: "message_queue_t option \<Rightarrow> bool" where
  "message_queue_empty queue = (case queue of None \<Rightarrow> True | Some q \<Rightarrow> count q = 0)"

definition message_queue_full :: "message_queue_t option \<Rightarrow> bool" where
  "message_queue_full queue = (case queue of None \<Rightarrow> True | Some q \<Rightarrow> count q \<ge> capacity q)"

text \<open>\<open>message_queue_put\<close>; \<open>sys_running\<close> is \<open>actor_system->running\<close> at the time of the
  call.\<close>

definition message_queue_put ::
  "bool \<Rightarrow> message_queue_t option \<Rightarrow> addr \<Rightarrow> (bool \<times> message_queue_t option) blocking" where
  "message_queue_put sys_running queue message =
     (case queue of
        None \<Rightarrow> Returns (False, queue)
      | Some q \<Rightarrow>
          if message = 0 then Returns (False, queue)
          else if message_queue_full queue \<and> sys_running then Waits
          else if \<not> sys_running then Returns (False, queue)
          else Returns (True, Some (q\<lparr>messages := (messages q)[tail q := message],
                                      tail := (tail q + 1) mod capacity q,
                                      count := count q + 1\<rparr>)))"

text \<open>\<open>message_queue_get\<close>: the message stored through the out-parameter (\<open>None\<close> when the
  function returns false) and the queue.\<close>

definition message_queue_get ::
  "bool \<Rightarrow> message_queue_t option \<Rightarrow> (addr option \<times> message_queue_t option) blocking" where
  "message_queue_get sys_running queue =
     (case queue of
        None \<Rightarrow> Returns (None, queue)
      | Some q \<Rightarrow>
          if message_queue_empty queue \<and> sys_running then Waits
          else if \<not> sys_running then Returns (None, queue)
          else if message_queue_empty queue then Returns (None, queue)
          else Returns (Some (messages q ! head q),
                        Some (q\<lparr>head := (head q + 1) mod capacity q, count := count q - 1\<rparr>)))"

text \<open>\<open>vela_actor_t\<close>: \<open>id\<close>, \<open>state\<close> and \<open>running\<close> carry the prefix \<open>actor_\<close>; \<open>behavior\<close> is
  a function pointer. The thread handle and the back pointer to the system are left out.\<close>

record vela_actor_t =
  actor_id :: "32 word"
  behavior :: addr
  actor_state :: addr
  mailbox :: "message_queue_t option"
  actor_running :: bool
  stopped :: bool

definition actor_send ::
  "bool \<Rightarrow> vela_actor_t option \<Rightarrow> addr \<Rightarrow> (bool \<times> vela_actor_t option) blocking" where
  "actor_send sys_running actor message =
     (case actor of
        None \<Rightarrow> Returns (False, actor)
      | Some a \<Rightarrow>
          if message = 0 then Returns (False, actor)
          else if mailbox a = None then Returns (False, actor)
          else (case message_queue_put sys_running (mailbox a) message of
                  Waits \<Rightarrow> Waits
                | Returns (ok, q) \<Rightarrow> Returns (ok, Some (a\<lparr>mailbox := q\<rparr>))))"

text \<open>
  Message envelopes live on the C heap, outside the collector: the sender allocates an
  envelope with \<open>malloc\<close> and \<open>actor_schedule\<close> releases it with \<open>free\<close>. \<open>live\<close> is the set
  of blocks that \<open>malloc\<close> has handed out and \<open>free\<close> has not yet taken back. \<open>free\<close> of
  \<open>NULL\<close> does nothing; \<open>free\<close> of any other pointer that is not a live block (a block
  already freed, a pointer into the stack) is undefined in C, and the model ends in
  \<open>Invalid_Free\<close>.
\<close>

datatype heap_fault = Invalid_Free addr

definition libc_free :: "addr set \<Rightarrow> addr \<Rightarrow> heap_fault + addr set" where
  "libc_free live p =
     (if p = 0 then Inr live
      else if p \<in> live then Inr (live - {p})
      else Inl (Invalid_Free p))"

text \<open>
  \<open>actor_schedule\<close>. The behavior is code of the compiled program, called with the actor and
  the message; the model records the call: the second component of the result is the
  message handed to the behavior, if any. The behavior itself is taken to touch neither
  the mailbox nor the envelope. After the call the envelope is freed; the last component
  of the result is the C heap.
\<close>

definition actor_schedule ::
  "bool \<Rightarrow> addr set \<Rightarrow> vela_actor_t option \<Rightarrow>
   (heap_fault + bool \<times> addr option \<times> vela_actor_t option \<times> addr set) blocking" where
  "actor_schedule sys_running live actor =
     (case actor of
        None \<Rightarrow> Returns (Inr (False, None, actor, live))
      | Some a \<Rightarrow>
          if \<not> actor_running a then Returns (Inr (False, None, actor, live))
          else (case message_queue_get sys_running (mailbox a) of
                  Waits \<Rightarrow> Waits
                | Returns (None, q) \<Rightarrow> Returns (Inr (False, None, Some (a\<lparr>mailbox := q\<rparr>), live))
                | Returns (Some message, q) \<Rightarrow>
                    (case libc_free live message of
                       Inl e \<Rightarrow> Returns (Inl e)
                     | Inr live' \<Rightarrow>
                         Returns (Inr (True, if behavior a \<noteq> 0 then Some message else None,
                                       Some (a\<lparr>mailbox := q\<rparr>), live')))))"

text \<open>The body of the loop of \<open>actor_scheduler\<close> for one actor: the messages handed to its
  behavior (none or one), the actor and the C heap.\<close>

definition scheduler_visit ::
  "bool \<Rightarrow> addr set \<Rightarrow> vela_actor_t option \<Rightarrow>
   (heap_fault + addr list \<times> vela_actor_t option \<times> addr set) blocking" where
  "scheduler_visit sys_running live actor =
     (case actor of
        None \<Rightarrow> Returns (Inr ([], actor, live))
      | Some a \<Rightarrow>
          if \<not> sys_running then Returns (Inr ([], actor, live))
          else if \<not> actor_running a then Returns (Inr ([], actor, live))
          else if message_queue_empty (mailbox a) then Returns (Inr ([], actor, live))
          else (case actor_schedule sys_running live actor of
                  Waits \<Rightarrow> Waits
                | Returns (Inl e) \<Rightarrow> Returns (Inl e)
                | Returns (Inr (ok, None, a', live')) \<Rightarrow> Returns (Inr ([], a', live'))
                | Returns (Inr (ok, Some message, a', live')) \<Rightarrow>
                    Returns (Inr ([message], a', live'))))"

text \<open>\<open>n\<close> rounds of the scheduler over one actor: all messages handed to the behavior, in
  the order of the calls.\<close>

fun scheduler_rounds ::
  "bool \<Rightarrow> addr set \<Rightarrow> vela_actor_t option \<Rightarrow> nat \<Rightarrow>
   (heap_fault + addr list \<times> vela_actor_t option \<times> addr set) blocking" where
  "scheduler_rounds sys_running live actor 0 = Returns (Inr ([], actor, live))"
| "scheduler_rounds sys_running live actor (Suc n) =
     (case scheduler_visit sys_running live actor of
        Waits \<Rightarrow> Waits
      | Returns (Inl e) \<Rightarrow> Returns (Inl e)
      | Returns (Inr (ms, a, live')) \<Rightarrow>
          (case scheduler_rounds sys_running live' a n of
             Waits \<Rightarrow> Waits
           | Returns (Inl e) \<Rightarrow> Returns (Inl e)
           | Returns (Inr (ms', a', live'')) \<Rightarrow> Returns (Inr (ms @ ms', a', live''))))"

text \<open>One caller performing a sequence of sends, each after the previous one returned: the
  results of the calls and the actor.\<close>

fun send_all ::
  "bool \<Rightarrow> vela_actor_t option \<Rightarrow> addr list \<Rightarrow> (bool list \<times> vela_actor_t option) blocking" where
  "send_all sys_running actor [] = Returns ([], actor)"
| "send_all sys_running actor (m # ms) =
     (case actor_send sys_running actor m of
        Waits \<Rightarrow> Waits
      | Returns (ok, a) \<Rightarrow>
          (case send_all sys_running a ms of
             Waits \<Rightarrow> Waits
           | Returns (oks, a') \<Rightarrow> Returns (ok # oks, a')))"

subsection \<open>Mailbox invariant and contents\<close>



subsection \<open>Callers blocked in a send\<close>

text \<open>
  A thread inside \<open>message_queue_put\<close>: about to test the loop condition with the mutex
  held, suspended in \<open>pthread_cond_wait\<close> on \<open>not_full\<close>, or back from the call with its
  result.
\<close>

datatype send_call = Testing addr | Suspended addr | Finished bool

text \<open>One mailbox, the flag \<open>actor_system->running\<close>, and the threads that called
  \<open>actor_send\<close> on the mailbox.\<close>

record mailbox_system =
  running :: bool
  box :: message_queue_t
  callers :: "send_call list"

text \<open>A caller runs until it suspends or returns. A suspended thread executes nothing.\<close>

definition caller_run :: "bool \<Rightarrow> message_queue_t \<Rightarrow> send_call \<Rightarrow> send_call \<times> message_queue_t" where
  "caller_run sys_running q c =
     (case c of
        Testing message \<Rightarrow>
          (case message_queue_put sys_running (Some q) message of
             Waits \<Rightarrow> (Suspended message, q)
           | Returns (ok, None) \<Rightarrow> (Finished ok, q)
           | Returns (ok, Some q') \<Rightarrow> (Finished ok, q'))
      | Suspended message \<Rightarrow> (c, q)
      | Finished ok \<Rightarrow> (c, q))"

fun callers_run :: "bool \<Rightarrow> message_queue_t \<Rightarrow> send_call list \<Rightarrow> send_call list \<times> message_queue_t" where
  "callers_run sys_running q [] = ([], q)"
| "callers_run sys_running q (c # cs) =
     (case caller_run sys_running q c of
        (c', q') \<Rightarrow> (case callers_run sys_running q' cs of (cs', q'') \<Rightarrow> (c' # cs', q'')))"

text \<open>Every thread runs as far as it can.\<close>

definition run_threads :: "mailbox_system \<Rightarrow> mailbox_system" where
  "run_threads s =
     (case callers_run (running s) (box s) (callers s) of
        (cs, q) \<Rightarrow> s\<lparr>box := q, callers := cs\<rparr>)"

text \<open>\<open>pthread_cond_broadcast\<close> on \<open>not_full\<close>: every suspended caller wakes up and tests the
  loop condition again.\<close>

definition broadcast_not_full :: "mailbox_system \<Rightarrow> mailbox_system" where
  "broadcast_not_full s =
     s\<lparr>callers := map (\<lambda>c. case c of Suspended message \<Rightarrow> Testing message | _ \<Rightarrow> c) (callers s)\<rparr>"

text \<open>
  \<open>actors_stop\<close>: it clears the flag and joins the scheduler and worker threads. It makes no
  call on any condition variable, so the callers are as they were.
\<close>

definition actors_stop :: "mailbox_system \<Rightarrow> mailbox_system" where
  "actors_stop s = (if \<not> running s then s else s\<lparr>running := False\<rparr>)"

subsection \<open>Concrete actors\<close>

text \<open>A running actor with a behavior and the empty mailbox that
  \<open>message_queue_create(2)\<close> returns.\<close>

definition actor_demo :: vela_actor_t where
  "actor_demo =
     \<lparr>actor_id = 1, behavior = 0x500000, actor_state = 0,
      mailbox = message_queue_create 2 True (Some [0, 0]) True,
      actor_running = True, stopped = False\<rparr>"

text \<open>A running system with a full mailbox of capacity 2 and one thread that calls
  \<open>actor_send\<close> with a third message.\<close>

definition blocked_demo :: mailbox_system where
  "blocked_demo =
     \<lparr>running = True,
      box = \<lparr>messages = [0x6000, 0x6100], count = 2, capacity = 2, head = 0, tail = 0\<rparr>,
      callers = [Testing 0x6200]\<rparr>"

section \<open>Boxed objects (runtime/src/runtime.c)\<close>

text \<open>
  The payload of an object is an array \<open>void** entries\<close> of pointer-sized cells; every cell
  holds a pointer, 0 being \<open>NULL\<close>. A pointer to an object is an \<open>option\<close> of its cells,
  \<open>None\<close> being \<open>NULL\<close>.

  \<open>vela_object_set\<close> stores the caller's key pointer, not a copy of the key, and every
  later call compares keys by \<open>strcmp\<close> through the stored pointers. What a call does
  therefore depends on the strings that are in memory at the time of the call: \<open>mem a\<close> is
  the NUL-terminated string that starts at address \<open>a\<close>, and \<open>None\<close> where no readable
  string starts.
\<close>

type_synonym str_mem = "addr \<rightharpoonup> string"

datatype str_fault = Not_A_String addr

text \<open>\<open>strcmp(a, b) == 0\<close>. Reading a string where there is none is undefined in C; the
  model ends in \<open>Not_A_String\<close>.\<close>

definition strcmp_is_0 :: "str_mem \<Rightarrow> addr \<Rightarrow> addr \<Rightarrow> str_fault + bool" where
  "strcmp_is_0 mem a b =
     (case mem a of
        None \<Rightarrow> Inl (Not_A_String a)
      | Some s \<Rightarrow> (case mem b of None \<Rightarrow> Inl (Not_A_String b) | Some t \<Rightarrow> Inr (s = t)))"

text \<open>\<open>object_size = sizeof(size_t) + 256 * sizeof(void*)\<close> on LP64, in bytes and in cells.\<close>

definition object_size :: size_t where
  "object_size = 8 + 256 * 8"

definition object_cells :: nat where
  "object_cells = 257"

text \<open>\<open>size_t capacity = 256\<close> in \<open>vela_object_set\<close> and \<open>vela_object_get\<close>: the number of
  cells the loops range over.\<close>

definition slot_capacity :: nat where
  "slot_capacity = 256"

definition vela_gc_alloc :: "gc_state \<Rightarrow> size_t \<Rightarrow> (gc_fault + addr \<times> gc_state) option" where
  "vela_gc_alloc s sz = gc_alloc s sz 0"

text \<open>\<open>vela_object_create\<close>: the pointer returned (0 is \<open>NULL\<close>), the cells of the new object
  after the \<open>memset\<close>, and the collector's state.\<close>

definition vela_object_create :: "gc_state \<Rightarrow> (gc_fault + addr \<times> addr list \<times> gc_state) option" where
  "vela_object_create s =
     (case vela_gc_alloc s object_size of
        None \<Rightarrow> None
      | Some (Inl e) \<Rightarrow> Some (Inl e)
      | Some (Inr (object, s1)) \<Rightarrow>
          if object = 0 then Some (Inr (0, [], s1))
          else
            let header = gc_get_header s1 object in
            if header = 0 then Some (Inr (object, replicate object_cells 0, s1))
            else (case hdrs s1 header of
                    None \<Rightarrow> Some (Inl (No_Header header))
                  | Some x \<Rightarrow>
                      Some (Inr (object, replicate object_cells 0,
                        s1\<lparr>hdrs := (hdrs s1)(header \<mapsto> x\<lparr>flags := flags x OR GC_FLAG_OBJECT\<rparr>)\<rparr>))))"

text \<open>The loop of \<open>vela_object_set\<close> from index \<open>i\<close> on.\<close>

function object_set_from ::
  "str_mem \<Rightarrow> nat \<Rightarrow> addr list \<Rightarrow> addr \<Rightarrow> addr \<Rightarrow> str_fault + bool \<times> addr list" where
  "object_set_from mem i entries key v =
     (if i < slot_capacity then
        (let existing_key = entries ! i in
         if existing_key = 0 then Inr (True, entries[i := key, i + 1 := v])
         else (case strcmp_is_0 mem existing_key key of
                 Inl e \<Rightarrow> Inl e
               | Inr same \<Rightarrow>
                   if same then Inr (True, entries[i + 1 := v])
                   else object_set_from mem (i + 2) entries key v))
      else Inr (False, entries))"
  by pat_completeness auto
termination
  by (relation "measure (\<lambda>(mem, i, entries, key, v). slot_capacity - i)") auto

definition vela_object_set ::
  "str_mem \<Rightarrow> addr list option \<Rightarrow> addr \<Rightarrow> addr \<Rightarrow> str_fault + bool \<times> addr list option" where
  "vela_object_set mem object key v =
     (case object of
        None \<Rightarrow> Inr (False, object)
      | Some entries \<Rightarrow>
          if key = 0 then Inr (False, object)
          else (case object_set_from mem 0 entries key v of
                  Inl e \<Rightarrow> Inl e
                | Inr (ok, e) \<Rightarrow> Inr (ok, Some e)))"

text \<open>The loop of \<open>vela_object_get\<close> from index \<open>i\<close> on.\<close>

function object_get_from :: "str_mem \<Rightarrow> nat \<Rightarrow> addr list \<Rightarrow> addr \<Rightarrow> str_fault + addr" where
  "object_get_from mem i entries key =
     (if i < slot_capacity then
        (let existing_key = entries ! i in
         if existing_key = 0 then Inr 0
         else (case strcmp_is_0 mem existing_key key of
                 Inl e \<Rightarrow> Inl e
               | Inr same \<Rightarrow>
                   if same then Inr (entries ! (i + 1))
                   else object_get_from mem (i + 2) entries key))
      else Inr 0)"
  by pat_completeness auto
termination
  by (relation "measure (\<lambda>(mem, i, entries, key). slot_capacity - i)") auto

definition vela_object_get :: "str_mem \<Rightarrow> addr list option \<Rightarrow> addr \<Rightarrow> str_fault + addr" where
  "vela_object_get mem object key =
     (case object of
        None \<Rightarrow> Inr 0
      | Some entries \<Rightarrow> if key = 0 then Inr 0 else object_get_from mem 0 entries key)"

text \<open>A caller setting a sequence of keys, one call after the other, while the strings in
  memory stay as they are: the results of the calls and the object.\<close>

fun object_set_all ::
  "str_mem \<Rightarrow> addr list option \<Rightarrow> (addr \<times> addr) list \<Rightarrow> str_fault + bool list \<times> addr list option" where
  "object_set_all mem object [] = Inr ([], object)"
| "object_set_all mem object ((k, v) # kvs) =
     (case vela_object_set mem object k v of
        Inl e \<Rightarrow> Inl e
      | Inr (ok, object') \<Rightarrow>
          (case object_set_all mem object' kvs of
             Inl e \<Rightarrow> Inl e
           | Inr (oks, object'') \<Rightarrow> Inr (ok # oks, object'')))"

subsection \<open>What an object stores\<close>

text \<open>The cells of an object that stores the pairs \<open>kvs\<close> of key pointer and value in this
  order: key and value alternate, and the rest is zero.\<close>

fun flat :: "(addr \<times> addr) list \<Rightarrow> addr list" where
  "flat [] = []"
| "flat ((k, v) # kvs) = k # v # flat kvs"

definition object_repr :: "(addr \<times> addr) list \<Rightarrow> addr list" where
  "object_repr kvs = flat kvs @ replicate (object_cells - 2 * length kvs) 0"

text \<open>The stored pairs with every key pointer replaced by the string it points to.\<close>

definition by_string :: "str_mem \<Rightarrow> (addr \<times> addr) list \<Rightarrow> (string option \<times> addr) list" where
  "by_string mem kvs = map (\<lambda>(k, v). (mem k, v)) kvs"

text \<open>Setting a key in a list of pairs: in place when the key is there, at the end when it
  is not. \<open>assign_ptr\<close> is what the object does: it finds the key by the string behind the
  stored pointer and keeps the stored pointer.\<close>

fun assign :: "'k \<Rightarrow> 'v \<Rightarrow> ('k \<times> 'v) list \<Rightarrow> ('k \<times> 'v) list" where
  "assign k v [] = [(k, v)]"
| "assign k v ((k', v') # kvs) = (if k' = k then (k', v) # kvs else (k', v') # assign k v kvs)"

fun assign_ptr :: "str_mem \<Rightarrow> addr \<Rightarrow> addr \<Rightarrow> (addr \<times> addr) list \<Rightarrow> (addr \<times> addr) list" where
  "assign_ptr mem k v [] = [(k, v)]"
| "assign_ptr mem k v ((k', v') # kvs) =
     (if mem k' = mem k then (k', v) # kvs else (k', v') # assign_ptr mem k v kvs)"

text \<open>\<open>usable mem k\<close>: \<open>k\<close> is a key pointer a caller may pass, non-null and pointing to a
  string.\<close>

definition usable :: "str_mem \<Rightarrow> addr \<Rightarrow> bool" where
  "usable mem k = (k \<noteq> 0 \<and> mem k \<noteq> None)"

subsection \<open>Concrete keys\<close>

text \<open>
  A buffer at \<open>0x700000\<close> that holds 129 times the character \<open>k\<close> and the terminating NUL.
  The string that starts \<open>i\<close> bytes into the buffer is \<open>129 - i\<close> times \<open>k\<close>, so the 129
  pointers \<open>key_ptr 0\<close>, ..., \<open>key_ptr 128\<close> are 129 different keys.
\<close>

definition key_mem :: str_mem where
  "key_mem a =
     (if 0x700000 \<le> a \<and> a \<le> 0x700081
      then Some (replicate (0x700081 - unat a) CHR ''k'') else None)"

definition key_ptr :: "nat \<Rightarrow> addr" where
  "key_ptr i = 0x700000 + of_nat i"

text \<open>The first \<open>n\<close> of these keys, each set to the value 1.\<close>

definition many_keys :: "nat \<Rightarrow> (addr \<times> addr) list" where
  "many_keys n = map (\<lambda>i. (key_ptr i, 1)) [0..<n]"

text \<open>Four strings in memory: \<open>a\<close> at \<open>0x7000\<close>, \<open>b\<close> at \<open>0x7010\<close>, \<open>c\<close> at \<open>0x7020\<close>, and
  \<open>a\<close> once more at \<open>0x7030\<close>.\<close>

definition abc_mem :: str_mem where
  "abc_mem = [0x7000 \<mapsto> ''a'', 0x7010 \<mapsto> ''b'', 0x7020 \<mapsto> ''c'', 0x7030 \<mapsto> ''a'']"

text \<open>The same memory after the caller has overwritten the string at \<open>0x7000\<close> with \<open>b\<close>.\<close>

definition abc_mem_reused :: str_mem where
  "abc_mem_reused = abc_mem(0x7000 \<mapsto> ''b'')"

declare object_set_from.simps [simp del]

declare object_get_from.simps [simp del]

text \<open>The collector after \<open>vela_gc_init\<close>: a heap of 1 MB, here at address \<open>0x100000\<close>.\<close>

definition gc_runtime :: gc_state where
  "gc_runtime =
     gc_uninit\<lparr>gc_heap := Some \<lparr>heap_start = 0x100000, heap_end = 0x200000,
                  heap_size = 0x100000, free_ptr = 0x100000, objects = 0, object_count = 0,
                  roots = [], root_capacity = 64, gc_running = False\<rparr>,
               gc_stats := (gc_stats gc_uninit)\<lparr>stats_heap_size := 0x100000,
                  free_bytes := 0x100000\<rparr>\<rparr>"

section \<open>Garbage collector: proofs\<close>

subsection \<open>Object lists\<close>

lemma obj_list_cong:
  "(\<And>a. a \<in> set ps \<Longrightarrow> map_option next_hdr (m' a) = map_option next_hdr (m a)) \<Longrightarrow>
   obj_list m' p ps = obj_list m p ps"
proof (induction ps arbitrary: p)
  case Nil
  show ?case by simp
next
  case (Cons q qs)
  have "map_option next_hdr (m' q) = map_option next_hdr (m q)"
    by (rule Cons.prems) simp
  moreover have "obj_list m' p' qs = obj_list m p' qs" for p'
    by (rule Cons.IH) (simp add: Cons.prems)
  ultimately show ?case
    by (cases "m q"; cases "m' q") auto
qed

lemma obj_list_unique: "obj_list m p ps \<Longrightarrow> obj_list m p qs \<Longrightarrow> ps = qs"
proof (induction ps arbitrary: p qs)
  case Nil
  then show ?case by (cases qs) auto
next
  case (Cons a ps)
  then show ?case by (cases qs) (auto split: option.splits)
qed

lemma obj_list_suffix:
  "obj_list m p ps \<Longrightarrow> q \<in> set ps \<Longrightarrow> \<exists>xs ys. ps = xs @ q # ys \<and> obj_list m q (q # ys)"
proof (induction ps arbitrary: p)
  case Nil
  then show ?case by simp
next
  case (Cons a ps)
  show ?case
  proof (cases "q = a")
    case True
    with Cons.prems show ?thesis by (intro exI [of _ "[]"] exI [of _ ps]) auto
  next
    case False
    with Cons.prems obtain x :: gc_header_t where "q \<in> set ps" and "obj_list m (next_hdr x) ps"
      by (cases "m a") auto
    from Cons.IH [OF this(2) this(1)] obtain xs ys
      where "ps = xs @ q # ys" and "obj_list m q (q # ys)" by blast
    then show ?thesis by (intro exI [of _ "a # xs"] exI [of _ ys]) simp
  qed
qed

lemma obj_list_head_notin: "obj_list m p (q # qs) \<Longrightarrow> q \<notin> set qs"
proof
  assume l: "obj_list m p (q # qs)" and "q \<in> set qs"
  then obtain x :: gc_header_t where "obj_list m (next_hdr x) qs" by (cases "m q") auto
  from obj_list_suffix [OF this \<open>q \<in> set qs\<close>] obtain xs ys
    where qs: "qs = xs @ q # ys" and s: "obj_list m q (q # ys)" by blast
  from l have "obj_list m q (q # qs)" by auto
  with s have "q # ys = q # qs" by (rule obj_list_unique)
  with qs show False by simp
qed

lemma obj_list_distinct: "obj_list m p ps \<Longrightarrow> distinct ps"
proof (induction ps arbitrary: p)
  case Nil
  then show ?case by simp
next
  case (Cons a ps)
  then show ?case using obj_list_head_notin [OF Cons.prems] by (auto split: option.splits)
qed

lemma obj_list_nonzero: "obj_list m p ps \<Longrightarrow> 0 \<notin> set ps"
  by (induction ps arbitrary: p) (auto split: option.splits)

lemma obj_list_dom: "obj_list m p ps \<Longrightarrow> set ps \<subseteq> dom m"
  by (induction ps arbitrary: p) (auto split: option.splits)

lemma map_option_eq_dom: "(\<And>a. map_option f (m' a) = map_option f (m a)) \<Longrightarrow> dom m' = dom m"
proof -
  assume e: "\<And>a. map_option f (m' a) = map_option f (m a)"
  have "m' a = None \<longleftrightarrow> m a = None" for a
    using e [of a] by (cases "m a"; cases "m' a") auto
  then show ?thesis by (auto simp: dom_def)
qed

lemma obj_end_cong:
  "map_option obj_size (m' q) = map_option obj_size (m q) \<Longrightarrow> obj_end m' q = obj_end m q"
  by (cases "m q"; cases "m' q") (auto simp: obj_end_def)

subsection \<open>The mark phase\<close>

lemma clear_marks_list:
  "obj_list m p ps \<Longrightarrow>
   clear_marks m p = Some (Inr (\<lambda>a. if a \<in> set ps then map_option unmark (m a) else m a))"
proof (induction ps arbitrary: m p)
  case Nil
  then show ?case by (subst clear_marks.simps) simp
next
  case (Cons q qs)
  from Cons.prems obtain x where p: "p = q" "q \<noteq> 0" and x: "m q = Some x"
    and l: "obj_list m (next_hdr x) qs" by (cases "m q") auto
  let ?m = "m(q \<mapsto> unmark x)"
  have "obj_list ?m (next_hdr x) qs"
    using l x by (subst obj_list_cong [where m = m]) (auto simp: unmark_def)
  from Cons.IH [OF this]
  have "clear_marks ?m (next_hdr x) =
      Some (Inr (\<lambda>a. if a \<in> set qs then map_option unmark (?m a) else ?m a))" .
  moreover have "(\<lambda>a. if a \<in> set qs then map_option unmark (?m a) else ?m a)
      = (\<lambda>a. if a \<in> set (q # qs) then map_option unmark (m a) else m a)"
    using obj_list_head_notin [OF Cons.prems] x by (auto simp: fun_eq_iff)
  ultimately show ?case using p x
    by (subst clear_marks.simps) (simp add: unmark_def)
qed

lemma unmark_marked: "a \<in> set ps \<Longrightarrow> \<not> marked (\<lambda>a. if a \<in> set ps then map_option unmark (m a) else m a) a"
  by (cases "m a") (simp_all add: marked_def unmark_def GC_FLAG_MARKED_def word_bw_assocs)

lemma mark_bit: "((x::32 word) OR GC_FLAG_MARKED) AND GC_FLAG_MARKED \<noteq> 0"
  by (simp add: GC_FLAG_MARKED_def word_ao_absorbs)

lemma gc_is_heap_ptr_cong: "gc_heap s' = gc_heap s \<Longrightarrow> gc_is_heap_ptr s' = gc_is_heap_ptr s"
  by (simp add: gc_is_heap_ptr_def fun_eq_iff)

text \<open>Marking through a root that is the payload pointer of an object, or outside the
  arena, returns; it changes nothing but the mark bit of that object.\<close>

lemma gc_mark_object_ok:
  assumes "root_ok s r"
  shows "\<exists>s'. gc_mark_object s r = Inr s' \<and> gc_heap s' = gc_heap s \<and> gc_stats s' = gc_stats s \<and>
           dom (hdrs s') = dom (hdrs s) \<and>
           (\<forall>a. map_option next_hdr (hdrs s' a) = map_option next_hdr (hdrs s a) \<and>
                map_option obj_size (hdrs s' a) = map_option obj_size (hdrs s a) \<and>
                (marked (hdrs s') a \<longleftrightarrow>
                   marked (hdrs s) a \<or>
                   (gc_is_heap_ptr s r \<and> a = r - sizeof_gc_header_t \<and> a \<noteq> 0)))"
proof (cases "gc_is_heap_ptr s r \<and> r - sizeof_gc_header_t \<noteq> 0")
  case False
  then have "gc_mark_object s r = Inr s"
    by (auto simp: gc_mark_object_def gc_get_header_def Let_def)
  with False show ?thesis by auto
next
  case True
  with assms obtain x where x: "hdrs s (r - sizeof_gc_header_t) = Some x"
    by (auto simp: root_ok_def)
  from True have z: "r \<noteq> 0" by (auto simp: gc_is_heap_ptr_def split: option.splits)
  show ?thesis
  proof (cases "flags x AND GC_FLAG_MARKED \<noteq> 0")
    case m: True
    with True x z have "gc_mark_object s r = Inr s"
      by (simp add: gc_mark_object_def gc_get_header_def Let_def)
    with m x show ?thesis by (auto simp: marked_def)
  next
    case m: False
    let ?s = "s\<lparr>hdrs := (hdrs s)(r - sizeof_gc_header_t \<mapsto> x\<lparr>flags := flags x OR GC_FLAG_MARKED\<rparr>)\<rparr>"
    from m True x z have "gc_mark_object s r = Inr ?s"
      by (simp add: gc_mark_object_def gc_get_header_def Let_def)
    moreover have "dom (hdrs ?s) = dom (hdrs s)" using x by auto
    ultimately show ?thesis
      using True x mark_bit [of "flags x"] by (auto simp: marked_def)
  qed
qed

lemma root_ok_cong:
  assumes h: "gc_heap s' = gc_heap s" and d: "dom (hdrs s') = dom (hdrs s)"
  shows "root_ok s' = root_ok s"
  unfolding root_ok_def fun_eq_iff gc_is_heap_ptr_cong [OF h] d by simp

lemma mark_roots_ok:
  assumes "\<forall>r \<in> set rs. root_ok s r"
  shows "\<exists>s'. mark_roots s rs = Inr s' \<and> gc_heap s' = gc_heap s \<and> gc_stats s' = gc_stats s \<and>
           dom (hdrs s') = dom (hdrs s) \<and>
           (\<forall>a. map_option next_hdr (hdrs s' a) = map_option next_hdr (hdrs s a) \<and>
                map_option obj_size (hdrs s' a) = map_option obj_size (hdrs s a) \<and>
                (marked (hdrs s') a \<longleftrightarrow>
                   marked (hdrs s) a \<or>
                   (\<exists>r \<in> set rs. gc_is_heap_ptr s r \<and> a = r - sizeof_gc_header_t \<and> a \<noteq> 0)))"
  using assms
proof (induction rs arbitrary: s)
  case Nil
  then show ?case by simp
next
  case (Cons r rs)
  have z: "\<not> gc_is_heap_ptr s 0" by (simp add: gc_is_heap_ptr_def split: option.splits)
  show ?case
  proof (cases "r = 0")
    case True
    from Cons.prems have "\<forall>r \<in> set rs. root_ok s r" by simp
    from Cons.IH [OF this] True z show ?thesis by auto
  next
    case False
    from Cons.prems have "root_ok s r" by simp
    from gc_mark_object_ok [OF this] obtain s1
      where m: "gc_mark_object s r = Inr s1" and h: "gc_heap s1 = gc_heap s"
        and st: "gc_stats s1 = gc_stats s" and d: "dom (hdrs s1) = dom (hdrs s)"
        and f: "\<And>a. map_option next_hdr (hdrs s1 a) = map_option next_hdr (hdrs s a)"
          "\<And>a. map_option obj_size (hdrs s1 a) = map_option obj_size (hdrs s a)"
          "\<And>a. marked (hdrs s1) a \<longleftrightarrow>
                   marked (hdrs s) a \<or>
                   (gc_is_heap_ptr s r \<and> a = r - sizeof_gc_header_t \<and> a \<noteq> 0)"
      by blast
    have p: "gc_is_heap_ptr s1 = gc_is_heap_ptr s" by (rule gc_is_heap_ptr_cong) (rule h)
    have "\<forall>r \<in> set rs. root_ok s1 r"
      using Cons.prems by (simp add: root_ok_cong [OF h d])
    from Cons.IH [OF this] obtain s'
      where r: "mark_roots s1 rs = Inr s'" and h': "gc_heap s' = gc_heap s1"
        and st': "gc_stats s' = gc_stats s1" and d': "dom (hdrs s') = dom (hdrs s1)"
        and f': "\<And>a. map_option next_hdr (hdrs s' a) = map_option next_hdr (hdrs s1 a)"
          "\<And>a. map_option obj_size (hdrs s' a) = map_option obj_size (hdrs s1 a)"
          "\<And>a. marked (hdrs s') a \<longleftrightarrow>
                   marked (hdrs s1) a \<or>
                   (\<exists>r \<in> set rs. gc_is_heap_ptr s1 r \<and> a = r - sizeof_gc_header_t \<and> a \<noteq> 0)"
      by blast
    have "mark_roots s (r # rs) = Inr s'" using False m r by simp
    moreover have "marked (hdrs s') a \<longleftrightarrow>
        marked (hdrs s) a \<or>
        (\<exists>r \<in> set (r # rs). gc_is_heap_ptr s r \<and> a = r - sizeof_gc_header_t \<and> a \<noteq> 0)" for a
      unfolding f'(3) f(3) p by auto
    ultimately show ?thesis
      using h h' st st' d d' f(1,2) f'(1,2) by auto
  qed
qed

subsection \<open>The sweep phase\<close>

lemma marked_cong: "map_option flags (m' a) = map_option flags (m a) \<Longrightarrow> marked m' a = marked m a"
  by (cases "m a"; cases "m' a") (auto simp: marked_def)

lemma sweep_loop_list:
  "deref h m cur = Inr p \<Longrightarrow> obj_list m p ps \<Longrightarrow> (\<And>a. cur = NextOf a \<Longrightarrow> a \<notin> set ps) \<Longrightarrow>
   swept h m cur ps (sweep_loop h m cur c)"
proof (induction ps arbitrary: h m cur c p)
  case Nil
  then show ?case
    by (subst sweep_loop.simps) (simp add: swept_def)
next
  case (Cons q qs)
  from Cons.prems(2) obtain x where q: "p = q" "q \<noteq> 0" and x: "m q = Some x"
    and l: "obj_list m (next_hdr x) qs" by (cases "m q") auto
  have nq: "q \<notin> set qs" using obj_list_head_notin [OF Cons.prems(2)] .
  have d: "deref h m cur = Inr q" using Cons.prems(1) q by simp
  show ?case
  proof (cases "marked m q")
    case True
    have dq: "deref h m (NextOf q) = Inr (next_hdr x)" using x by (simp add: deref_def)
    have "swept h m (NextOf q) qs (sweep_loop h m (NextOf q) c)"
      using dq l by (rule Cons.IH) (use nq in simp)
    then obtain h' m' c' p' where r: "sweep_loop h m (NextOf q) c = Some (Inr (h', m', c'))"
      and dp: "deref h' m' (NextOf q) = Inr p'" and lp: "obj_list m' p' (filter (marked m) qs)"
      and fr: "\<forall>a. map_option flags (m' a) = map_option flags (m a)"
              "\<forall>a. map_option obj_size (m' a) = map_option obj_size (m a)"
      and same: "\<forall>a. a \<notin> set qs \<and> NextOf q \<noteq> NextOf a \<longrightarrow> m' a = m a"
      and oh: "objects h' = objects h"
      and h': "h' = h\<lparr>objects := objects h', object_count := object_count h'\<rparr>"
      unfolding swept_def by blast
    have e: "sweep_loop h m cur c = sweep_loop h m (NextOf q) c"
      using d q x True by (subst sweep_loop.simps) (simp add: marked_def)
    from dp obtain y where y: "m' q = Some y" "next_hdr y = p'"
      by (auto simp: deref_def split: option.splits)
    have dc: "deref h' m' cur = Inr q"
    proof (cases cur)
      case Objects
      with d oh show ?thesis by (simp add: deref_def)
    next
      case (NextOf a)
      with Cons.prems(3) have "a \<notin> set qs" "a \<noteq> q" by auto
      then have "m' a = m a" using same by simp
      with d NextOf show ?thesis by (simp add: deref_def)
    qed
    have "obj_list m' q (filter (marked m) (q # qs))"
      using True q y lp by simp
    with dc have "\<exists>p. deref h' m' cur = Inr p \<and> obj_list m' p (filter (marked m) (q # qs))"
      by blast
    moreover have "\<forall>a. a \<notin> set (q # qs) \<and> cur \<noteq> NextOf a \<longrightarrow> m' a = m a"
      using same by auto
    ultimately show ?thesis
      unfolding e r swept_def using fr oh h' by simp
  next
    case False
    then have um: "flags x AND GC_FLAG_MARKED = 0" using x by (simp add: marked_def)
    show ?thesis
    proof (cases cur)
      case Objects
      let ?h = "h\<lparr>objects := next_hdr x, object_count := object_count h - 1\<rparr>"
      have dn: "deref ?h m Objects = Inr (next_hdr x)" by (simp add: deref_def)
      have "swept ?h m Objects qs (sweep_loop ?h m Objects (c + obj_size x))"
        using dn l by (rule Cons.IH) simp
      moreover have "sweep_loop h m cur c = sweep_loop ?h m Objects (c + obj_size x)"
        using d q x um Objects by (subst sweep_loop.simps) (simp add: store_link_def)
      ultimately show ?thesis
        using False Objects unfolding swept_def
        by (auto simp: deref_def)
    next
      case (NextOf a)
      from Cons.prems(3) NextOf have a: "a \<noteq> q" "a \<notin> set qs" by auto
      from d NextOf obtain y where y: "m a = Some y" "next_hdr y = q"
        by (auto simp: deref_def split: option.splits)
      let ?h = "h\<lparr>object_count := object_count h - 1\<rparr>"
      let ?m = "m(a \<mapsto> y\<lparr>next_hdr := next_hdr x\<rparr>)"
      have fl: "map_option flags (?m b) = map_option flags (m b)"
        and sz: "map_option obj_size (?m b) = map_option obj_size (m b)" for b
        using y by auto
      have "marked ?m b = marked m b" for b
        by (rule marked_cong) (rule fl)
      then have mk: "marked ?m = marked m"
        by (simp add: fun_eq_iff)
      have lq: "obj_list ?m (next_hdr x) qs"
        using l a by (subst obj_list_cong [where m = m]) auto
      have dn: "deref ?h ?m (NextOf a) = Inr (next_hdr x)"
        by (simp add: deref_def)
      have "swept ?h ?m (NextOf a) qs (sweep_loop ?h ?m (NextOf a) (c + obj_size x))"
        using dn lq by (rule Cons.IH) (use a in simp)
      then obtain h' m' c' p'
        where r: "sweep_loop ?h ?m (NextOf a) (c + obj_size x) = Some (Inr (h', m', c'))"
        and dp: "deref h' m' (NextOf a) = Inr p'" and lp: "obj_list m' p' (filter (marked m) qs)"
        and fr: "\<forall>b. map_option flags (m' b) = map_option flags (?m b)"
                "\<forall>b. map_option obj_size (m' b) = map_option obj_size (?m b)"
        and same: "\<forall>b. b \<notin> set qs \<and> NextOf a \<noteq> NextOf b \<longrightarrow> m' b = ?m b"
        and oh: "objects h' = objects ?h"
        and h': "h' = ?h\<lparr>objects := objects h', object_count := object_count h'\<rparr>"
        unfolding swept_def mk by blast
      have e: "sweep_loop h m cur c = sweep_loop ?h ?m (NextOf a) (c + obj_size x)"
        using d q x um NextOf y by (subst sweep_loop.simps) (simp add: store_link_def)
      have "\<exists>p. deref h' m' cur = Inr p \<and> obj_list m' p (filter (marked m) (q # qs))"
        using dp lp False NextOf by auto
      moreover have "\<forall>b. b \<notin> set (q # qs) \<and> cur \<noteq> NextOf b \<longrightarrow> m' b = m b"
        using same NextOf by auto
      moreover have "h' = h\<lparr>objects := objects h', object_count := object_count h'\<rparr>"
        by (subst h') simp
      ultimately show ?thesis
        unfolding e r swept_def using fr fl sz oh NextOf by simp
    qed
  qed
qed

subsection \<open>A collection on a well-formed heap\<close>

lemma gc_collect_wf:
  assumes wf: "gc_wf s ps"
  shows "\<exists>s'. gc_collect s = Some (Inr s') \<and> gc_wf s' (filter (rooted s) ps) \<and> collected s s'"
proof -
  from wf obtain h where h: "gc_heap s = Some h" and nr: "\<not> gc_running h"
    and l: "obj_list (hdrs s) (objects h) ps"
    and ro: "\<forall>r \<in> set (roots h). root_ok s r"
    by (auto simp: gc_wf_def split: option.splits)
  let ?hr = "h\<lparr>gc_running := True\<rparr>"
  let ?sr = "set_gc_running True s"
  let ?mc = "\<lambda>a. if a \<in> set ps then map_option unmark (hdrs s a) else hdrs s a"
  let ?sc = "?sr\<lparr>hdrs := ?mc\<rparr>"
  have sr: "gc_heap ?sr = Some ?hr" "hdrs ?sr = hdrs s" "gc_stats ?sr = gc_stats s"
    using h by (simp_all add: set_gc_running_def)
  have dc: "dom ?mc = dom (hdrs s)" by (auto simp: dom_def)
  have hp: "gc_is_heap_ptr ?sc = gc_is_heap_ptr s"
    using h by (simp add: gc_is_heap_ptr_def fun_eq_iff set_gc_running_def)
  have "\<forall>r \<in> set (roots h). root_ok ?sc r"
    using ro unfolding root_ok_def hp by (simp add: dc)
  from mark_roots_ok [OF this] obtain sm
    where mr: "mark_roots ?sc (roots h) = Inr sm"
      and smh: "gc_heap sm = Some ?hr" and sms: "gc_stats sm = gc_stats s"
      and nx0: "\<And>a. map_option next_hdr (hdrs sm a) = map_option next_hdr (?mc a)"
      and sz0: "\<And>a. map_option obj_size (hdrs sm a) = map_option obj_size (?mc a)"
      and mk0: "\<And>a. marked (hdrs sm) a \<longleftrightarrow>
                   marked ?mc a \<or>
                   (\<exists>r \<in> set (roots h). gc_is_heap_ptr s r \<and> a = r - sizeof_gc_header_t \<and> a \<noteq> 0)"
    unfolding hp using sr by auto
  have nx: "map_option next_hdr (hdrs sm a) = map_option next_hdr (hdrs s a)"
    and sz: "map_option obj_size (hdrs sm a) = map_option obj_size (hdrs s a)" for a
    unfolding nx0 sz0 by (cases "hdrs s a"; simp add: unmark_def)+
  have mark: "gc_mark ?sr = Some (Inr sm)"
    using clear_marks_list [OF l] sr mr by (simp add: gc_mark_def)
  have mk: "marked (hdrs sm) a \<longleftrightarrow> rooted s a" if "a \<in> set ps" for a
  proof -
    have "\<not> marked ?mc a" using that by (rule unmark_marked)
    moreover have "a \<noteq> 0" using obj_list_nonzero [OF l] that by auto
    ultimately show ?thesis
      using h unfolding mk0 by (auto simp: rooted_def)
  qed
  have fil: "filter (marked (hdrs sm)) ps = filter (rooted s) ps"
    by (rule filter_cong) (simp_all add: mk)
  have lm: "obj_list (hdrs sm) (objects h) ps"
    using l by (subst obj_list_cong [where m = "hdrs s"]) (simp_all add: nx)
  have "deref ?hr (hdrs sm) Objects = Inr (objects h)" by (simp add: deref_def)
  then have "swept ?hr (hdrs sm) Objects ps (sweep_loop ?hr (hdrs sm) Objects 0)"
    using lm by (rule sweep_loop_list) simp
  then obtain h' m' c' p' where sw: "sweep_loop ?hr (hdrs sm) Objects 0 = Some (Inr (h', m', c'))"
    and dp: "deref h' m' Objects = Inr p'"
    and lp: "obj_list m' p' (filter (rooted s) ps)"
    and fr: "\<forall>a. map_option obj_size (m' a) = map_option obj_size (hdrs sm a)"
    and h': "h' = ?hr\<lparr>objects := objects h', object_count := object_count h'\<rparr>"
    unfolding swept_def fil by blast
  from dp lp have l': "obj_list m' (objects h') (filter (rooted s) ps)"
    by (simp add: deref_def)
  let ?s2 = "sm\<lparr>gc_heap := Some h', hdrs := m',
                 gc_stats := (gc_stats sm)\<lparr>total_collected :=
                    total_collected (gc_stats sm) + c'\<rparr>\<rparr>"
  have sweep: "gc_sweep sm = Some (Inr ?s2)"
    using smh sw by (simp add: gc_sweep_def)
  let ?s' = "(set_gc_running False ?s2)\<lparr>gc_stats := (gc_stats ?s2)
               \<lparr>collection_count := collection_count (gc_stats ?s2) + 1\<rparr>\<rparr>"
  have col: "gc_collect s = Some (Inr ?s')"
    using h nr mark sweep by (simp add: gc_collect_def)
  have hf: "gc_heap ?s' = Some (h'\<lparr>gc_running := False\<rparr>)" and mf: "hdrs ?s' = m'"
    by (simp_all add: set_gc_running_def)
  have eq: "h'\<lparr>gc_running := False\<rparr> = h\<lparr>objects := objects h', object_count := object_count h'\<rparr>"
    using nr by (subst h') simp
  have szf: "map_option obj_size (m' a) = map_option obj_size (hdrs s a)" for a
    using fr sz by simp
  have "obj_end m' a = obj_end (hdrs s) a" for a
    by (rule obj_end_cong) (rule szf)
  then have oe: "obj_end m' = obj_end (hdrs s)"
    by (simp add: fun_eq_iff)
  have dm: "dom m' = dom (hdrs s)"
    using szf by (rule map_option_eq_dom)
  have hp': "gc_is_heap_ptr ?s' = gc_is_heap_ptr s"
    unfolding gc_is_heap_ptr_def fun_eq_iff hf eq using h by simp
  have rk: "root_ok ?s' = root_ok s"
    unfolding root_ok_def fun_eq_iff hp' mf dm by simp
  have wf': "gc_wf ?s' (filter (rooted s) ps)"
    using wf h l' unfolding gc_wf_def hf mf eq oe dm rk by simp
  have "collected s ?s'"
    unfolding collected_def hf mf eq using h sms szf
    by (simp add: set_gc_running_def)
  with col wf' show ?thesis by blast
qed

subsection \<open>Allocation on a well-formed heap\<close>

lemma unat_sizeof: "unat sizeof_gc_header_t = 24"
  by (simp add: sizeof_gc_header_t_def)

lemma no_overflow_unat:
  assumes "no_overflow h sz"
  shows "unat (sizeof_gc_header_t + sz) = 24 + unat sz"
    and "unat (free_ptr h + (sizeof_gc_header_t + sz)) = unat (free_ptr h) + 24 + unat sz"
    and "unat (free_ptr h + sizeof_gc_header_t) = unat (free_ptr h) + 24"
proof -
  from assms have n: "unat (free_ptr h) + 24 + unat sz < 2 ^ 64"
    by (simp add: no_overflow_def sizeof_gc_header_t_def)
  have a: "unat (24 + sz) = 24 + unat sz"
    using n by (subst unat_add_lem [THEN iffD1]) simp_all
  then show "unat (sizeof_gc_header_t + sz) = 24 + unat sz"
    by (simp add: sizeof_gc_header_t_def)
  show "unat (free_ptr h + (sizeof_gc_header_t + sz)) = unat (free_ptr h) + 24 + unat sz"
    using n a by (subst unat_add_lem [THEN iffD1]) (simp_all add: sizeof_gc_header_t_def)
  show "unat (free_ptr h + sizeof_gc_header_t) = unat (free_ptr h) + 24"
    using n by (subst unat_add_lem [THEN iffD1]) (simp_all add: sizeof_gc_header_t_def)
qed

lemma obj_end_gt: "m q = Some x \<Longrightarrow> unat q + 24 \<le> obj_end m q"
  by (simp add: obj_end_def unat_sizeof)

lemma bump_alloc_wf:
  assumes wf: "gc_wf s ps" and h: "gc_heap s = Some h" and nw: "no_overflow h sz"
    and fits: "\<not> free_ptr h + (sizeof_gc_header_t + sz) > heap_end h"
    and r: "bump_alloc s h sz fl = (p, s')"
  shows "gc_wf s' (free_ptr h # ps)"
    and "p = free_ptr h + sizeof_gc_header_t"
    and "0 < sz \<Longrightarrow> gc_is_heap_ptr s' p"
    and "\<exists>h' x. gc_heap s' = Some h' \<and> objects h' = free_ptr h \<and>
           hdrs s' (objects h') = Some x \<and> next_hdr x = objects h"
    and "root_ok s' p"
proof -
  note u = no_overflow_unat [OF nw]
  let ?f = "free_ptr h"
  from wf h have b: "unat (heap_start h) \<le> unat ?f" and z: "heap_start h \<noteq> 0"
    and l: "obj_list (hdrs s) (objects h) ps" and nr: "\<not> gc_running h"
    and q: "\<And>q. q \<in> dom (hdrs s) \<Longrightarrow> heap_start h \<le> q \<and> obj_end (hdrs s) q \<le> unat ?f"
    and dj: "\<And>a b. a \<in> dom (hdrs s) \<Longrightarrow> b \<in> dom (hdrs s) \<Longrightarrow> a < b \<Longrightarrow>
               obj_end (hdrs s) a \<le> unat b"
    and ro: "\<And>r. r \<in> set (roots h) \<Longrightarrow> root_ok s r"
    by (auto simp: gc_wf_def word_le_nat_alt)
  from fits have f: "unat ?f + 24 + unat sz \<le> unat (heap_end h)"
    by (simp add: word_le_nat_alt word_less_nat_alt u not_less)
  let ?x = "\<lparr>flags = fl, obj_size = sz, next_hdr = objects h\<rparr>"
  from r have p: "p = ?f + sizeof_gc_header_t"
    and h': "gc_heap s' = Some (h\<lparr>free_ptr := ?f + (sizeof_gc_header_t + sz),
              objects := ?f, object_count := object_count h + 1\<rparr>)"
    and m': "hdrs s' = (hdrs s)(?f \<mapsto> ?x)"
    by (auto simp: bump_alloc_def Let_def)
  show "p = ?f + sizeof_gc_header_t" by fact
  have nz: "?f \<noteq> 0"
    using b z by (auto simp: unat_eq_0 dest!: arg_cong [where f = unat])
  have ni: "?f \<notin> dom (hdrs s)"
  proof
    assume a: "?f \<in> dom (hdrs s)"
    then obtain x where "hdrs s ?f = Some x" by auto
    from obj_end_gt [of "hdrs s" ?f, OF this] q [OF a] show False by simp
  qed
  have np: "?f \<notin> set ps" using ni obj_list_dom [OF l] by auto
  have l': "obj_list (hdrs s') (objects h) ps"
    using l np unfolding m' by (subst obj_list_cong [where m = "hdrs s"]) auto
  have old: "obj_end (hdrs s') a = obj_end (hdrs s) a" if "a \<in> dom (hdrs s)" for a
    using that ni by (auto simp: obj_end_def m')
  have new: "obj_end (hdrs s') ?f = unat ?f + 24 + unat sz"
    by (simp add: obj_end_def m' unat_sizeof)
  have d': "dom (hdrs s') = insert ?f (dom (hdrs s))" by (simp add: m')
  have hp: "gc_is_heap_ptr s' = gc_is_heap_ptr s"
    unfolding gc_is_heap_ptr_def fun_eq_iff h' using h by simp
  have lay: "heap_start h \<le> a \<and> obj_end (hdrs s') a \<le> unat ?f + 24 + unat sz"
    if "a \<in> dom (hdrs s')" for a
  proof (cases "a = ?f")
    case True
    then show ?thesis using b new by (simp add: word_le_nat_alt)
  next
    case False
    with that d' have a: "a \<in> dom (hdrs s)" by simp
    from q [OF a] old [OF a] show ?thesis by simp
  qed
  have dj': "obj_end (hdrs s') a \<le> unat c"
    if "a \<in> dom (hdrs s')" and "c \<in> dom (hdrs s')" and "a < c" for a c
  proof (cases "a = ?f")
    case True
    with that d' have c: "c \<in> dom (hdrs s)" by auto
    then obtain y where "hdrs s c = Some y" by auto
    from obj_end_gt [of "hdrs s" c, OF this] q [OF c] have "unat c < unat ?f" by simp
    with that(3) True show ?thesis by (simp add: word_less_nat_alt)
  next
    case False
    with that d' have a: "a \<in> dom (hdrs s)" by simp
    show ?thesis
    proof (cases "c = ?f")
      case True
      with q [OF a] old [OF a] show ?thesis by simp
    next
      case False
      with that d' have c: "c \<in> dom (hdrs s)" by simp
      from dj [OF a c that(3)] old [OF a] show ?thesis by simp
    qed
  qed
  have ro': "root_ok s' r" if "r \<in> set (roots h)" for r
    using ro [OF that] unfolding root_ok_def hp d' by (simp split: if_splits)
  have l2: "obj_list (hdrs s') ?f (?f # ps)"
    using l' nz by (simp add: m')
  show "gc_wf s' (?f # ps)"
    unfolding gc_wf_def h' using nr z b f l2 lay dj' ro'
    by (simp add: word_le_nat_alt u)
  show "gc_is_heap_ptr s' p" if "0 < sz"
  proof -
    from that have "0 < unat sz" by (simp add: word_less_nat_alt)
    then show ?thesis
      unfolding gc_is_heap_ptr_def h' p using b f
      by (auto simp: word_le_nat_alt word_less_nat_alt u dest!: arg_cong [where f = unat])
  qed
  show "\<exists>h' x. gc_heap s' = Some h' \<and> objects h' = ?f \<and>
           hdrs s' (objects h') = Some x \<and> next_hdr x = objects h"
    by (simp add: h' m')
  show "root_ok s' p"
    unfolding root_ok_def p d' by simp
qed

lemma gc_alloc_full:
  assumes wf: "gc_wf s ps" and h: "gc_heap s = Some h"
    and full: "free_ptr h + (sizeof_gc_header_t + sz) > heap_end h"
  shows "\<exists>s1. gc_collect s = Some (Inr s1) \<and> gc_alloc s sz fl = Some (Inr (0, s1)) \<and>
           gc_wf s1 (filter (rooted s) ps) \<and> collected s s1"
proof -
  from gc_collect_wf [OF wf] obtain s1 where c: "gc_collect s = Some (Inr s1)"
    and w: "gc_wf s1 (filter (rooted s) ps)" and cs: "collected s s1"
    by blast
  from cs h obtain h1 where h1: "gc_heap s1 = Some h1"
    and e: "h1 = h\<lparr>objects := objects h1, object_count := object_count h1\<rparr>"
    by (auto simp: collected_def split: option.splits)
  have "free_ptr h1 = free_ptr h" "heap_end h1 = heap_end h" by (subst e, simp)+
  with h full c h1 have "gc_alloc s sz fl = Some (Inr (0, s1))"
    by (simp add: gc_alloc_def Let_def)
  with c w cs show ?thesis by blast
qed

text \<open>\<open>gc_init\<close> leaves a well-formed heap when the arena fits the address space, and
  \<open>gc_add_root\<close> keeps a heap well formed when the new root is the payload pointer of an
  object or a pointer outside the arena.\<close>

lemma gc_init_wf:
  assumes "gc_init s0 hsize heap_ok arena roots_ok = (True, s1)"
    and "unat arena + unat hsize < 2 ^ 64"
  shows "gc_wf s1 []"
proof -
  from assms(2) have "unat (arena + hsize) = unat arena + unat hsize"
    by (subst unat_add_lem [THEN iffD1]) simp_all
  with assms(1) show ?thesis
    by (auto simp: gc_init_def gc_wf_def word_le_nat_alt split: if_splits)
qed

lemma gc_add_root_wf:
  assumes "gc_wf s ps" and "root_ok s ptr"
  shows "gc_wf (snd (gc_add_root s ptr realloc_ok)) ps"
proof -
  from assms(1) obtain h where h: "gc_heap s = Some h"
    by (auto simp: gc_wf_def split: option.splits)
  have "gc_is_heap_ptr (s\<lparr>gc_heap := Some h2\<rparr>) = gc_is_heap_ptr s"
    if "heap_start h2 = heap_start h" and "heap_end h2 = heap_end h" for h2
    unfolding gc_is_heap_ptr_def fun_eq_iff using h that by simp
  then have "root_ok (s\<lparr>gc_heap := Some h2\<rparr>) = root_ok s"
    if "heap_start h2 = heap_start h" and "heap_end h2 = heap_end h" for h2
    unfolding root_ok_def fun_eq_iff using that by simp
  then show ?thesis
    using assms h by (auto simp: gc_add_root_def gc_wf_def)
qed

subsection \<open>Mark and sweep on roots inside the arena\<close>

text \<open>
  When every root passes \<open>gc_is_heap_ptr\<close>, a collection keeps exactly the objects whose
  payload pointer is in the root array, in their order, and unlinks all others.
\<close>

lemma gc_collect_mark_sweep:
  assumes "gc_wf s ps" and "gc_heap s = Some h" and "\<forall>r \<in> set (roots h). gc_is_heap_ptr s r"
  shows "\<exists>s'. gc_collect s = Some (Inr s') \<and>
           gc_wf s' (filter (\<lambda>q. q + sizeof_gc_header_t \<in> set (roots h)) ps)"
proof -
  have "rooted s q \<longleftrightarrow> q + sizeof_gc_header_t \<in> set (roots h)" for q
  proof
    assume "rooted s q"
    then obtain r where "r \<in> set (roots h)" and "q = r - sizeof_gc_header_t"
      using assms(2) by (auto simp: rooted_def)
    then show "q + sizeof_gc_header_t \<in> set (roots h)" by simp
  next
    assume "q + sizeof_gc_header_t \<in> set (roots h)"
    with assms(2,3) show "rooted s q"
      by (auto simp: rooted_def intro!: bexI [of _ "q + sizeof_gc_header_t"])
  qed
  then have "rooted s = (\<lambda>q. q + sizeof_gc_header_t \<in> set (roots h))"
    by (simp add: fun_eq_iff)
  then have "filter (rooted s) ps = filter (\<lambda>q. q + sizeof_gc_header_t \<in> set (roots h)) ps"
    by (simp only:)
  with gc_collect_wf [OF assms(1)] show ?thesis by auto
qed

subsection \<open>Statistics on arbitrary states\<close>

text \<open>
  The loops of the collector do not touch the statistics, so what a returning call does to
  them does not depend on the shape of the heap.
\<close>

lemma gc_mark_object_stats:
  "gc_mark_object s r = Inr s' \<Longrightarrow> gc_stats s' = gc_stats s \<and> gc_heap s' = gc_heap s"
  by (auto simp: gc_mark_object_def Let_def split: if_splits option.splits)

lemma mark_roots_stats:
  "mark_roots s rs = Inr s' \<Longrightarrow> gc_stats s' = gc_stats s \<and> gc_heap s' = gc_heap s"
proof (induction rs arbitrary: s)
  case Nil
  then show ?case by simp
next
  case (Cons r rs)
  show ?case
  proof (cases "r = 0")
    case True
    with Cons show ?thesis by simp
  next
    case False
    with Cons.prems obtain s1 where m: "gc_mark_object s r = Inr s1" and r: "mark_roots s1 rs = Inr s'"
      by (auto split: sum.splits)
    from Cons.IH [OF r] gc_mark_object_stats [OF m] show ?thesis by simp
  qed
qed

lemma gc_collect_stats:
  assumes "gc_collect s = Some (Inr s')"
  shows "used_bytes (gc_stats s') = used_bytes (gc_stats s)"
    and "free_bytes (gc_stats s') = free_bytes (gc_stats s)"
    and "stats_heap_size (gc_stats s') = stats_heap_size (gc_stats s)"
  using assms
  by (auto simp: gc_collect_def gc_mark_def gc_sweep_def set_gc_running_def
           split: option.splits if_splits sum.splits dest!: mark_roots_stats)

lemma gc_alloc_stats:
  assumes "gc_alloc s sz fl = Some (Inr (p, s'))" and "p \<noteq> 0"
  shows "used_bytes (gc_stats s') = used_bytes (gc_stats s) + (sizeof_gc_header_t + sz)"
    and "free_bytes (gc_stats s') = free_bytes (gc_stats s) - (sizeof_gc_header_t + sz)"
    and "stats_heap_size (gc_stats s') = stats_heap_size (gc_stats s)"
  using assms gc_collect_stats
  by (auto simp: gc_alloc_def bump_alloc_def Let_def split: option.splits if_splits sum.splits)

subsection \<open>Exact statistics when no address computation wraps\<close>

text \<open>
  On a well-formed heap whose statistics are exact, and for a request whose address
  arithmetic does not overflow, the statistics stay exact; an allocation that succeeds
  adds \<open>sizeof(gc_header_t) + sz\<close> to \<open>used_bytes\<close> and takes it from \<open>free_bytes\<close>, as
  natural numbers, and a collection changes neither.
\<close>

lemma gc_init_exact:
  assumes "gc_init s0 hsize heap_ok arena roots_ok = (True, s1)"
    and "unat arena + unat hsize < 2 ^ 64"
  shows "stats_exact s1"
proof -
  from assms(2) have "unat (arena + hsize) = unat arena + unat hsize"
    by (subst unat_add_lem [THEN iffD1]) simp_all
  with assms(1) show ?thesis
    by (auto simp: gc_init_def stats_exact_def split: if_splits)
qed

lemma gc_collect_exact:
  assumes wf: "gc_wf s ps" and ex: "stats_exact s" and c: "gc_collect s = Some (Inr s')"
  shows "stats_exact s'"
    and "used_bytes (gc_stats s') = used_bytes (gc_stats s)"
    and "free_bytes (gc_stats s') = free_bytes (gc_stats s)"
proof -
  from gc_collect_wf [OF wf] c have cs: "collected s s'" by auto
  from wf obtain h where h: "gc_heap s = Some h"
    by (auto simp: gc_wf_def split: option.splits)
  from cs h obtain h' where h': "gc_heap s' = Some h'"
    and e: "h' = h\<lparr>objects := objects h', object_count := object_count h'\<rparr>"
    by (auto simp: collected_def split: option.splits)
  have f: "heap_start h' = heap_start h" "heap_end h' = heap_end h" "free_ptr h' = free_ptr h"
    by (subst e, simp)+
  note st = gc_collect_stats [OF c]
  show "used_bytes (gc_stats s') = used_bytes (gc_stats s)"
    and "free_bytes (gc_stats s') = free_bytes (gc_stats s)" by (rule st)+
  from ex show "stats_exact s'"
    by (simp add: stats_exact_def h h' f st)
qed

lemma gc_alloc_exact:
  assumes wf: "gc_wf s ps" and ex: "stats_exact s" and h: "gc_heap s = Some h"
    and nw: "no_overflow h sz" and a: "gc_alloc s sz fl = Some (Inr (p, s'))"
  shows "stats_exact s'"
    and "p \<noteq> 0 \<Longrightarrow>
         unat (used_bytes (gc_stats s')) = unat (used_bytes (gc_stats s)) + (24 + unat sz)"
    and "p \<noteq> 0 \<Longrightarrow>
         unat (free_bytes (gc_stats s')) + (24 + unat sz) = unat (free_bytes (gc_stats s))"
proof -
  note u = no_overflow_unat [OF nw]
  from nw have n: "unat (free_ptr h) + 24 + unat sz < 2 ^ 64"
    by (simp add: no_overflow_def unat_sizeof)
  from ex h have e: "unat (used_bytes (gc_stats s)) + unat (heap_start h) = unat (free_ptr h)"
    "unat (free_bytes (gc_stats s)) + unat (free_ptr h) = unat (heap_end h)"
    "unat (stats_heap_size (gc_stats s)) + unat (heap_start h) = unat (heap_end h)"
    by (simp_all add: stats_exact_def)
  show "stats_exact s'"
    and "p \<noteq> 0 \<Longrightarrow>
         unat (used_bytes (gc_stats s')) = unat (used_bytes (gc_stats s)) + (24 + unat sz)"
    and "p \<noteq> 0 \<Longrightarrow>
         unat (free_bytes (gc_stats s')) + (24 + unat sz) = unat (free_bytes (gc_stats s))"
  proof (atomize (full), cases "free_ptr h + (sizeof_gc_header_t + sz) > heap_end h")
    case True
    from gc_alloc_full [OF wf h True, of fl] a obtain
      c: "gc_collect s = Some (Inr s')" and p: "p = 0" by auto
    from gc_collect_exact(1) [OF wf ex c] p
    show "stats_exact s' \<and>
      (p \<noteq> 0 \<longrightarrow> unat (used_bytes (gc_stats s')) = unat (used_bytes (gc_stats s)) + (24 + unat sz)) \<and>
      (p \<noteq> 0 \<longrightarrow> unat (free_bytes (gc_stats s')) + (24 + unat sz) = unat (free_bytes (gc_stats s)))"
      by simp
  next
    case False
    then have f: "unat (free_ptr h) + 24 + unat sz \<le> unat (heap_end h)"
      by (simp add: word_le_nat_alt word_less_nat_alt u not_less)
    from a h False have b: "bump_alloc s h sz fl = (p, s')"
      by (simp add: gc_alloc_def Let_def)
    let ?t = "sizeof_gc_header_t + sz"
    from b have hs: "gc_heap s' = Some (h\<lparr>free_ptr := free_ptr h + ?t,
              objects := free_ptr h, object_count := object_count h + 1\<rparr>)"
      and us: "used_bytes (gc_stats s') = used_bytes (gc_stats s) + ?t"
      and fs: "free_bytes (gc_stats s') = free_bytes (gc_stats s) - ?t"
      and ss: "stats_heap_size (gc_stats s') = stats_heap_size (gc_stats s)"
      by (auto simp: bump_alloc_def Let_def)
    have uu: "unat (used_bytes (gc_stats s) + ?t) = unat (used_bytes (gc_stats s)) + (24 + unat sz)"
      using e n by (subst unat_add_lem [THEN iffD1]) (simp_all add: u)
    have "?t \<le> free_bytes (gc_stats s)"
      using e f by (simp add: word_le_nat_alt u)
    then have uf: "unat (free_bytes (gc_stats s) - ?t) = unat (free_bytes (gc_stats s)) - (24 + unat sz)"
      by (simp add: unat_sub u)
    have ge: "24 + unat sz \<le> unat (free_bytes (gc_stats s))"
      using e f by simp
    show "stats_exact s' \<and>
      (p \<noteq> 0 \<longrightarrow> unat (used_bytes (gc_stats s')) = unat (used_bytes (gc_stats s)) + (24 + unat sz)) \<and>
      (p \<noteq> 0 \<longrightarrow> unat (free_bytes (gc_stats s')) + (24 + unat sz) = unat (free_bytes (gc_stats s)))"
      unfolding stats_exact_def hs us fs ss uu uf using e ge by (simp add: u)
  qed
qed

subsection \<open>The concrete heaps are states of the code\<close>

lemmas gc_eval_defs =
  gc_init_def gc_alloc_def bump_alloc_def gc_add_root_def gc_collect_def gc_mark_def
  gc_sweep_def set_gc_running_def gc_mark_object_def gc_get_header_def gc_is_heap_ptr_def
  deref_def store_link_def sizeof_gc_header_t_def GC_FLAG_MARKED_def Let_def

lemmas gc_wf_eval_defs =
  gc_wf_def root_ok_def obj_end_def gc_is_heap_ptr_def sizeof_gc_header_t_def

lemma gc_tiny_reached: "gc_init gc_uninit 24 True 0x1000 True = (True, gc_tiny)"
  by (simp add: gc_init_def gc_tiny_def gc_uninit_def)

lemma gc_fresh_reached: "gc_init gc_uninit 1024 True 0x1000 True = (True, gc_fresh)"
  by (simp add: gc_init_def gc_fresh_def gc_uninit_def)

lemma gc_demo_reached:
  "gc_alloc gc_fresh 8 0 = Some (Inr (0x1018, gc_one)) \<and>
   gc_alloc gc_one 16 0 = Some (Inr (0x1038, gc_two)) \<and>
   gc_add_root gc_two 0x1038 True = (True, gc_demo)"
  by (simp add: gc_eval_defs gc_fresh_def gc_one_def gc_two_def gc_demo_def gc_uninit_def)

lemma gc_demo_wf: "gc_wf gc_demo [0x1020, 0x1000]"
  by (simp add: gc_wf_eval_defs gc_demo_def gc_two_def)

lemma gc_tiny_rooted_wf: "gc_wf gc_tiny_rooted [0x1000]"
  by (simp add: gc_wf_eval_defs gc_tiny_rooted_def gc_tiny_full_def gc_tiny_def gc_uninit_def)

text \<open>
  A root that is neither a payload pointer nor outside the arena. \<open>gc_add_root\<close> accepts
  any non-null pointer. For the root \<open>0x1028\<close> the collector takes the bytes at \<open>0x1010\<close>
  for a header, and these are the \<open>next\<close> field of the header at \<open>0x1000\<close>: the C program
  sets a bit of that field and then follows it. The model stops at the access.
\<close>

lemma gc_collect_stray_root:
  "gc_add_root gc_demo 0x1028 True = (True, gc_demo_stray) \<and>
   \<not> root_ok gc_demo_stray 0x1028 \<and>
   gc_collect gc_demo_stray = Some (Inl (No_Header 0x1010)) \<and>
   gc_alloc gc_demo_stray 1024 0 = Some (Inl (No_Header 0x1010))"
  by (simp add: gc_eval_defs root_ok_def gc_demo_def gc_demo_stray_def gc_two_def
        clear_marks.simps word_le_nat_alt)

text \<open>
  An allocation whose size makes \<open>sizeof(gc_header_t) + size\<close> wrap around is accepted by
  the space check of \<open>gc_alloc\<close>: in a 23-byte arena, a request of \<open>2 ^ 64 - 1\<close> bytes has
  \<open>total_size = 23\<close> and returns a pointer past the arena end.
\<close>

lemma gc_alloc_size_overflow:
  "\<exists>s'. gc_alloc gc_short (- 1) 0 = Some (Inr (0x1018, s')) \<and> \<not> gc_is_heap_ptr s' 0x1018"
  by (simp add: gc_eval_defs gc_short_def gc_uninit_def)

subsection \<open>Claims about the collector\<close>

text \<open>
  C1 (mark-sweep correctness), at the input where the code departs from it. In a 24-byte
  arena at \<open>0x1000\<close>, \<open>gc_alloc(0, 0)\<close> places a header at \<open>0x1000\<close> and returns the payload
  pointer \<open>0x1018\<close>, which is the arena end. After \<open>gc_add_root(0x1018)\<close> the object is live
  (it is the head of the object list) and its payload pointer is in the root array; yet
  \<open>gc_collect\<close> returns with an empty object list: \<open>gc_mark_object\<close> leaves the root alone
  because \<open>gc_is_heap_ptr\<close> is false at the arena end, and \<open>gc_sweep\<close> unlinks the object.
\<close>

theorem gc_collect_unlinks_rooted_object_at_arena_end:
  "gc_init gc_uninit 24 True 0x1000 True = (True, gc_tiny) \<and>
   gc_alloc gc_tiny 0 0 = Some (Inr (0x1018, gc_tiny_full)) \<and>
   gc_add_root gc_tiny_full 0x1018 True = (True, gc_tiny_rooted) \<and>
   objects_head gc_tiny_rooted = Some 0x1000 \<and>
   map_option roots (gc_heap gc_tiny_rooted) = Some [0x1018] \<and>
   map_option (map_sum id objects_head) (gc_collect gc_tiny_rooted) = Some (Inr (Some 0))"
  by (simp add: gc_eval_defs gc_tiny_def gc_tiny_full_def gc_tiny_rooted_def gc_uninit_def
        objects_head_def clear_marks.simps sweep_loop.simps)

text \<open>
  C2, as stated, fails for a request of size 0 that exactly fills the arena: the allocation
  succeeds and the pointer it returns is the arena end, where \<open>gc_is_heap_ptr\<close> is false.
\<close>

theorem gc_alloc_zero_size_result_not_heap_ptr:
  "gc_alloc gc_tiny 0 0 = Some (Inr (0x1018, gc_tiny_full)) \<and>
   \<not> gc_is_heap_ptr gc_tiny_full 0x1018"
  by (simp add: gc_eval_defs gc_tiny_def gc_tiny_full_def gc_uninit_def)

text \<open>
  C2, amended: on a well-formed heap (in particular, every root is the payload pointer of
  an allocated object or lies outside the arena), for a request of \<open>sz > 0\<close> bytes whose
  address arithmetic does not overflow. If the bump cursor plus header and payload exceeds
  the arena end, \<open>gc_alloc\<close> returns \<open>NULL\<close> in exactly the state one \<open>gc_collect\<close> leaves
  (the collection counter has grown by one; the cursor has not moved, so the second check
  fails as the first did), and that state is well formed. Otherwise it returns the pointer
  \<open>p\<close> behind the new header, with \<open>gc_is_heap_ptr p\<close>, and the new header is the head of
  the object list, its \<open>next\<close> being the old head; no collection has run, the heap stays
  well formed, and \<open>p\<close> is a pointer that may be made a root.
\<close>

theorem gc_alloc_collects_once_or_links_head:
  assumes "gc_wf s ps" and "gc_heap s = Some h" and "0 < sz" and "no_overflow h sz"
  shows "if free_ptr h + (sizeof_gc_header_t + sz) > heap_end h
         then \<exists>s1. gc_collect s = Some (Inr s1) \<and> gc_alloc s sz fl = Some (Inr (0, s1)) \<and>
                collection_count (gc_stats s1) = collection_count (gc_stats s) + 1 \<and>
                gc_wf s1 (filter (rooted s) ps)
         else \<exists>p s' h' x. gc_alloc s sz fl = Some (Inr (p, s')) \<and> gc_is_heap_ptr s' p \<and>
                gc_heap s' = Some h' \<and> objects h' = p - sizeof_gc_header_t \<and>
                hdrs s' (objects h') = Some x \<and> next_hdr x = objects h \<and>
                gc_wf s' (objects h' # ps) \<and> root_ok s' p \<and>
                collection_count (gc_stats s') = collection_count (gc_stats s)"
proof (cases "free_ptr h + (sizeof_gc_header_t + sz) > heap_end h")
  case True
  from gc_alloc_full [OF assms(1,2) True, of fl] obtain s1
    where c: "gc_collect s = Some (Inr s1)" and a: "gc_alloc s sz fl = Some (Inr (0, s1))"
      and w: "gc_wf s1 (filter (rooted s) ps)" and cs: "collected s s1" by blast
  from cs assms(2)
  have "collection_count (gc_stats s1) = collection_count (gc_stats s) + 1"
    by (auto simp: collected_def split: option.splits
          dest!: arg_cong [where f = collection_count])
  with True c a w show ?thesis by simp
next
  case False
  obtain p s' where b: "bump_alloc s h sz fl = (p, s')" by (cases "bump_alloc s h sz fl")
  from assms(2) False b have a: "gc_alloc s sz fl = Some (Inr (p, s'))"
    by (simp add: gc_alloc_def Let_def)
  note w = bump_alloc_wf [OF assms(1,2,4) False b]
  from w(4) obtain h' x where h': "gc_heap s' = Some h'" "objects h' = free_ptr h"
    "hdrs s' (objects h') = Some x" "next_hdr x = objects h" by blast
  have "objects h' = p - sizeof_gc_header_t" using h'(2) w(2) by simp
  moreover from b have "collection_count (gc_stats s') = collection_count (gc_stats s)"
    by (auto simp: bump_alloc_def Let_def)
  ultimately show ?thesis
    using a w(1) w(3) [OF assms(3)] w(5) h' False by auto
qed

theorem gc_alloc_collects_once_or_links_head_witness:
  "gc_wf gc_demo [0x1020, 0x1000] \<and> (0 :: size_t) < 8 \<and>
   (\<exists>s' h' x. gc_alloc gc_demo 8 0 = Some (Inr (0x1060, s')) \<and> gc_is_heap_ptr s' 0x1060 \<and>
      gc_heap s' = Some h' \<and> objects h' = 0x1048 \<and> hdrs s' 0x1048 = Some x \<and>
      next_hdr x = 0x1020 \<and> root_ok s' 0x1060) \<and>
   (\<exists>s1. gc_collect gc_demo = Some (Inr s1) \<and> gc_alloc gc_demo 1024 0 = Some (Inr (0, s1)) \<and>
      collection_count (gc_stats s1) = 1)"
proof -
  let ?h = "\<lparr>heap_start = 0x1000, heap_end = 0x1400, heap_size = 1024,
             free_ptr = 0x1048, objects = 0x1020, object_count = 2, roots = [0x1038],
             root_capacity = 64, gc_running = False\<rparr> :: gc_heap_t"
  have h: "gc_heap gc_demo = Some ?h" by (simp add: gc_demo_def)
  have n1: "no_overflow ?h 8" and n2: "no_overflow ?h 1024"
    by (simp_all add: no_overflow_def sizeof_gc_header_t_def)
  have z: "(0 :: size_t) < 8" "(0 :: size_t) < 1024" by simp_all
  from gc_alloc_collects_once_or_links_head [OF gc_demo_wf h z(1) n1, of 0]
  have a: "\<exists>s' h' x. gc_alloc gc_demo 8 0 = Some (Inr (0x1060, s')) \<and> gc_is_heap_ptr s' 0x1060 \<and>
      gc_heap s' = Some h' \<and> objects h' = 0x1048 \<and> hdrs s' 0x1048 = Some x \<and>
      next_hdr x = 0x1020 \<and> root_ok s' 0x1060"
    by (simp add: sizeof_gc_header_t_def gc_alloc_def bump_alloc_def gc_demo_def Let_def)
  from gc_alloc_collects_once_or_links_head [OF gc_demo_wf h z(2) n2, of 0]
  have b: "\<exists>s1. gc_collect gc_demo = Some (Inr s1) \<and> gc_alloc gc_demo 1024 0 = Some (Inr (0, s1)) \<and>
      collection_count (gc_stats s1) = 1"
    by (auto simp: sizeof_gc_header_t_def gc_demo_def gc_two_def)
  from gc_demo_wf z(1) a b show ?thesis by blast
qed

text \<open>
  C7 (no-reclaim invariant). For every heap state \<open>s\<close> whatsoever: when \<open>gc_collect\<close>
  returns, \<open>free_bytes\<close> has not grown. And on every heap that is uninitialised or well
  formed (in particular, every root is the payload pointer of an allocated object or lies
  outside the arena) \<open>gc_collect\<close> does return, with \<open>free_bytes\<close> and the bump cursor
  unchanged, whatever was unlinked.
\<close>

theorem gc_collect_never_increases_free_bytes:
  "(gc_collect s = Some (Inr t) \<longrightarrow> free_bytes (gc_stats t) \<le> free_bytes (gc_stats s)) \<and>
   (gc_heap s = None \<or> gc_wf s ps \<longrightarrow>
      (\<exists>s'. gc_collect s = Some (Inr s') \<and>
         free_bytes (gc_stats s') = free_bytes (gc_stats s) \<and>
         map_option free_ptr (gc_heap s') = map_option free_ptr (gc_heap s)))"
proof (intro conjI impI)
  assume "gc_collect s = Some (Inr t)"
  then show "free_bytes (gc_stats t) \<le> free_bytes (gc_stats s)"
    by (simp add: gc_collect_stats)
next
  assume a: "gc_heap s = None \<or> gc_wf s ps"
  show "\<exists>s'. gc_collect s = Some (Inr s') \<and>
         free_bytes (gc_stats s') = free_bytes (gc_stats s) \<and>
         map_option free_ptr (gc_heap s') = map_option free_ptr (gc_heap s)"
  proof (cases "gc_heap s")
    case None
    then show ?thesis by (simp add: gc_collect_def)
  next
    case (Some h)
    with a have "gc_wf s ps" by simp
    from gc_collect_wf [OF this] obtain s' where c: "gc_collect s = Some (Inr s')"
      and cs: "collected s s'" by blast
    from cs Some obtain h' where h': "gc_heap s' = Some h'"
      and e: "h' = h\<lparr>objects := objects h', object_count := object_count h'\<rparr>"
      by (auto simp: collected_def split: option.splits)
    have "free_ptr h' = free_ptr h" by (subst e) simp
    with c Some h' gc_collect_stats(2) [OF c] show ?thesis by simp
  qed
qed

theorem gc_collect_never_increases_free_bytes_witness:
  "gc_wf gc_demo [0x1020, 0x1000] \<and>
   (\<exists>s' x. gc_collect gc_demo = Some (Inr s') \<and> objects_head gc_demo = Some 0x1020 \<and>
      map_option next_hdr (hdrs gc_demo 0x1020) = Some 0x1000 \<and>
      objects_head s' = Some 0x1020 \<and> map_option next_hdr (hdrs s' 0x1020) = Some 0 \<and>
      free_bytes (gc_stats gc_demo) = 952 \<and> free_bytes (gc_stats s') = 952 \<and>
      free_bytes (gc_stats s') \<le> free_bytes (gc_stats gc_demo))"
proof -
  note t = gc_collect_never_increases_free_bytes [of gc_demo _ "[0x1020, 0x1000]"]
  from t gc_demo_wf obtain s' where c: "gc_collect gc_demo = Some (Inr s')"
    and f: "free_bytes (gc_stats s') = free_bytes (gc_stats gc_demo)" by blast
  from t [of s'] c have l: "free_bytes (gc_stats s') \<le> free_bytes (gc_stats gc_demo)" by blast
  have "gc_collect gc_demo = Some (Inr s') \<Longrightarrow>
      objects_head s' = Some 0x1020 \<and> map_option next_hdr (hdrs s' 0x1020) = Some 0"
    by (auto simp: gc_eval_defs gc_demo_def gc_two_def objects_head_def clear_marks.simps
          sweep_loop.simps)
  with c f l gc_demo_wf show ?thesis
    by (auto simp: gc_demo_def gc_two_def objects_head_def)
qed

text \<open>
  C10 (statistics accounting), at the input where the code departs from it. The space
  check of \<open>gc_alloc\<close> compares \<open>free_ptr + total_size\<close> with the arena end and does not
  notice that \<open>total_size = sizeof(gc_header_t) + size\<close> has wrapped around. On the heap
  reached by \<open>gc_init(1024)\<close>, \<open>gc_alloc(8, 0)\<close>, \<open>gc_alloc(16, 0)\<close> and
  \<open>gc_add_root(0x1038)\<close>, the call \<open>gc_alloc(2 ^ 64 - 32, 0)\<close> has \<open>total_size = 2 ^ 64 - 8\<close>
  and succeeds: it returns \<open>0x1060\<close>, and \<open>used_bytes\<close> goes from 72 down to 64 and
  \<open>free_bytes\<close> from 952 up to 960, where the claim has \<open>used_bytes\<close> grow and
  \<open>free_bytes\<close> shrink by \<open>sizeof(gc_header_t) + size\<close>. The bump cursor has moved back
  into the payload of the second object.
\<close>

theorem gc_alloc_wrapped_size_shrinks_used_bytes:
  "gc_init gc_uninit 1024 True 0x1000 True = (True, gc_fresh) \<and>
   gc_alloc gc_fresh 8 0 = Some (Inr (0x1018, gc_one)) \<and>
   gc_alloc gc_one 16 0 = Some (Inr (0x1038, gc_two)) \<and>
   gc_add_root gc_two 0x1038 True = (True, gc_demo) \<and>
   gc_alloc gc_demo (- 32) 0 = Some (Inr (0x1060, gc_demo_wrapped)) \<and>
   used_bytes (gc_stats gc_demo) = 72 \<and> used_bytes (gc_stats gc_demo_wrapped) = 64 \<and>
   free_bytes (gc_stats gc_demo) = 952 \<and> free_bytes (gc_stats gc_demo_wrapped) = 960 \<and>
   map_option free_ptr (gc_heap gc_demo) = Some 0x1048 \<and>
   map_option free_ptr (gc_heap gc_demo_wrapped) = Some 0x1040"
  by (simp add: gc_eval_defs gc_uninit_def gc_fresh_def gc_one_def gc_two_def gc_demo_def
        gc_demo_wrapped_def)

section \<open>Reactive signals: proofs\<close>

lemmas sig_eval_defs =
  signals_init_def signal_create_def computed_create_def signals_register_signal_def
  computed_recompute_def signal_get_value_def signal_add_dependent_def flag_dependent_def
  signals_propagate_changes_def signal_set_value_def double_of_def during_propagation_def
  Let_def

lemma sig_demo_reached:
  "\<exists>w1 w2 w3. signals_init signals_uninit True True True = (True, w1) \<and>
     signal_create w1 1 0x2000 True True = (0x2000, w2) \<and>
     computed_create demo_fns w2 0x400000 0x3000 True True = (0x3000, w3) \<and>
     signal_add_dependent w3 0x2000 0x3000 True = (True, sig_demo)"
  by (simp add: sig_eval_defs signals_uninit_def sig_demo_def demo_fns_def fun_upd_twist)

text \<open>
  C3 (signal propagation, both paths). Let \<open>s\<close> be created with value 1, \<open>c\<close> be computed by
  a function \<open>f\<close> that returns twice the value of \<open>s\<close>, and \<open>c\<close> be registered as a
  dependent of \<open>s\<close>. Then \<open>get(c)\<close> returns 2. Push path: \<open>set(s, 5)\<close> returns (any depth
  bound of at least 2 is enough) and has already recomputed \<open>c\<close>: its stored value is 10
  and its flag is clear, so \<open>get(c)\<close> returns 10 without recomputing. Pull path: when the
  same \<open>set(s, 5)\<close> happens while a propagation pass is running, the reentrancy guard skips
  the propagation; \<open>c\<close> is left flagged with the stale value 2, and \<open>get(c)\<close> recomputes
  and returns 10.
\<close>

theorem signal_propagation_push_and_pull:
  assumes "s \<noteq> 0" and "c \<noteq> 0" and "s \<noteq> c" and "f \<noteq> 0" and "fns f = double_of s"
    and "signals_state w0 = None" and "2 \<le> n"
  shows "\<exists>w1 w2 w3 w4.
           signals_init w0 True True True = (True, w1) \<and>
           signal_create w1 1 s True True = (s, w2) \<and>
           computed_create fns w2 f c True True = (c, w3) \<and>
           signal_add_dependent w3 s c True = (True, w4) \<and>
           \<not> is_computed (sigs w4 s) \<and> is_computed (sigs w4 c) \<and>
           fst (signal_get_value fns w4 c) = 2 \<and>
           (\<exists>w5. signal_set_value n fns w4 s 5 True = Some w5 \<and>
                 sig_value (sigs w5 c) = 10 \<and> \<not> needs_recompute (sigs w5 c) \<and>
                 fst (signal_get_value fns w5 c) = 10) \<and>
           (\<exists>w6. signal_set_value n fns (during_propagation w4) s 5 True = Some w6 \<and>
                 sig_value (sigs w6 c) = 2 \<and> needs_recompute (sigs w6 c) \<and>
                 fst (signal_get_value fns w6 c) = 10)"
proof -
  from \<open>2 \<le> n\<close> obtain k where n: "n = Suc (Suc k)"
    by (metis Suc_le_D numeral_2_eq_2 Suc_le_mono)
  show ?thesis
    using assms(1-6) unfolding n
    by (simp add: sig_eval_defs)
qed

theorem signal_propagation_push_and_pull_witness:
  "fst (signal_get_value demo_fns sig_demo 0x3000) = 2 \<and>
   (\<exists>w5. signal_set_value 2 demo_fns sig_demo 0x2000 5 True = Some w5 \<and>
         sig_value (sigs w5 0x3000) = 10 \<and> \<not> needs_recompute (sigs w5 0x3000) \<and>
         fst (signal_get_value demo_fns w5 0x3000) = 10) \<and>
   (\<exists>w6. signal_set_value 2 demo_fns (during_propagation sig_demo) 0x2000 5 True = Some w6 \<and>
         sig_value (sigs w6 0x3000) = 2 \<and> needs_recompute (sigs w6 0x3000) \<and>
         fst (signal_get_value demo_fns w6 0x3000) = 10)"
proof -
  have d: "demo_fns 0x400000 = double_of 0x2000" by (simp add: demo_fns_def)
  have u: "signals_state signals_uninit = None" by (simp add: signals_uninit_def)
  from signal_propagation_push_and_pull [of "0x2000" "0x3000" "0x400000" demo_fns
      signals_uninit 2, OF _ _ _ _ d u]
  obtain w1 w2 w3 w4 where
    r: "signals_init signals_uninit True True True = (True, w1)"
       "signal_create w1 1 0x2000 True True = (0x2000, w2)"
       "computed_create demo_fns w2 0x400000 0x3000 True True = (0x3000, w3)"
       "signal_add_dependent w3 0x2000 0x3000 True = (True, w4)"
    and t: "fst (signal_get_value demo_fns w4 0x3000) = 2 \<and>
      (\<exists>w5. signal_set_value 2 demo_fns w4 0x2000 5 True = Some w5 \<and>
         sig_value (sigs w5 0x3000) = 10 \<and> \<not> needs_recompute (sigs w5 0x3000) \<and>
         fst (signal_get_value demo_fns w5 0x3000) = 10) \<and>
      (\<exists>w6. signal_set_value 2 demo_fns (during_propagation w4) 0x2000 5 True = Some w6 \<and>
         sig_value (sigs w6 0x3000) = 2 \<and> needs_recompute (sigs w6 0x3000) \<and>
         fst (signal_get_value demo_fns w6 0x3000) = 10)"
    by auto
  from sig_demo_reached r have "w4 = sig_demo" by auto
  with t show ?thesis by simp
qed

text \<open>
  C4, as stated, fails: \<open>signal_set_value\<close> returns nothing, and on the computed signal at
  \<open>0x3000\<close> it returns with the state untouched, so the attempt is silently ignored.
\<close>

theorem signal_set_value_computed_not_reported:
  "is_computed (sigs sig_demo 0x3000) \<and>
   silently_ignored sig_demo (signal_set_value 2 demo_fns sig_demo 0x3000 7 True)"
  by (simp add: silently_ignored_def signal_set_value_def sig_demo_def)

text \<open>
  C4, amended: for every computed signal \<open>c\<close> and every value \<open>v\<close>, \<open>signal_set_value c v\<close>
  is a silent no-op. It returns at once, with the whole state as it was; in particular the
  value of \<open>c\<close> is unchanged. The function has no result through which it could report.
\<close>

theorem signal_set_value_computed_noop:
  assumes "c \<noteq> 0" and "is_computed (sigs w c)"
  shows "silently_ignored w (signal_set_value n fns w c v realloc_ok) \<and>
         (\<exists>w'. signal_set_value n fns w c v realloc_ok = Some w' \<and>
                sig_value (sigs w' c) = sig_value (sigs w c))"
  using assms by (simp add: silently_ignored_def signal_set_value_def)

theorem signal_set_value_computed_noop_witness:
  "(0x3000 :: addr) \<noteq> 0 \<and> is_computed (sigs sig_demo 0x3000) \<and>
   signal_set_value 2 demo_fns sig_demo 0x3000 7 True = Some sig_demo \<and>
   sig_value (sigs sig_demo 0x3000) = 2"
proof -
  have a: "(0x3000 :: addr) \<noteq> 0" by simp
  have b: "is_computed (sigs sig_demo 0x3000)" by (simp add: sig_demo_def)
  from signal_set_value_computed_noop [OF a b, of 2 demo_fns 7 True]
  have "signal_set_value 2 demo_fns sig_demo 0x3000 7 True = Some sig_demo"
    by (simp add: silently_ignored_def)
  moreover have "sig_value (sigs sig_demo 0x3000) = 2" by (simp add: sig_demo_def)
  ultimately show ?thesis using a b by simp
qed

text \<open>
  C8, as stated, fails when the dependents array is full and \<open>realloc\<close> fails: both calls
  report failure and the list holds no entry equal to the new dependent.
\<close>

theorem signal_add_dependent_fails_without_memory:
  "signal_add_dependent sig_full 0x2000 0x4000 False = (False, sig_full) \<and>
   count_list (dependents (sigs sig_full 0x2000)) 0x4000 = 0"
  by (simp add: signal_add_dependent_def sig_full_def Let_def)

text \<open>
  C8, amended: let \<open>signal\<close> and \<open>dependent\<close> be non-null. If the dependents list of
  \<open>signal\<close> holds \<open>dependent\<close> at most once, and the first call either finds \<open>dependent\<close>,
  finds room, or has its \<open>realloc\<close> succeed, then both calls of \<open>signal_add_dependent\<close>
  report success, the second changes nothing, and the list holds exactly one entry equal to
  \<open>dependent\<close>. If \<open>dependent\<close> is not in the list, the array is full and \<open>realloc\<close>
  fails, then the call reports failure and leaves the whole state, in particular the
  list, unchanged.
\<close>

theorem signal_add_dependent_twice:
  "(signal \<noteq> 0 \<and> dependent \<noteq> 0 \<and>
    count_list (dependents (sigs w signal)) dependent \<le> 1 \<and>
    (ok1 \<or> dependent \<in> set (dependents (sigs w signal)) \<or>
     length (dependents (sigs w signal)) < dependent_capacity (sigs w signal)) \<longrightarrow>
      (\<exists>w1. signal_add_dependent w signal dependent ok1 = (True, w1) \<and>
         signal_add_dependent w1 signal dependent ok2 = (True, w1) \<and>
         count_list (dependents (sigs w1 signal)) dependent = 1)) \<and>
   (signal \<noteq> 0 \<and> dependent \<noteq> 0 \<and>
    dependent \<notin> set (dependents (sigs w signal)) \<and>
    dependent_capacity (sigs w signal) \<le> length (dependents (sigs w signal)) \<longrightarrow>
      signal_add_dependent w signal dependent False = (False, w))"
proof (intro conjI impI)
  assume h: "signal \<noteq> 0 \<and> dependent \<noteq> 0 \<and>
    count_list (dependents (sigs w signal)) dependent \<le> 1 \<and>
    (ok1 \<or> dependent \<in> set (dependents (sigs w signal)) \<or>
     length (dependents (sigs w signal)) < dependent_capacity (sigs w signal))"
  show "\<exists>w1. signal_add_dependent w signal dependent ok1 = (True, w1) \<and>
         signal_add_dependent w1 signal dependent ok2 = (True, w1) \<and>
         count_list (dependents (sigs w1 signal)) dependent = 1"
  proof (cases "dependent \<in> set (dependents (sigs w signal))")
    case True
    then have "count_list (dependents (sigs w signal)) dependent \<noteq> 0"
      by (simp add: count_list_0_iff)
    with h have "count_list (dependents (sigs w signal)) dependent = 1" by simp
    with True h show ?thesis
      by (simp add: signal_add_dependent_def Let_def)
  next
    case False
    then have "count_list (dependents (sigs w signal)) dependent = 0"
      by (simp add: count_list_0_iff)
    with False h show ?thesis
      by (auto simp: signal_add_dependent_def Let_def)
  qed
next
  assume "signal \<noteq> 0 \<and> dependent \<noteq> 0 \<and>
    dependent \<notin> set (dependents (sigs w signal)) \<and>
    dependent_capacity (sigs w signal) \<le> length (dependents (sigs w signal))"
  then show "signal_add_dependent w signal dependent False = (False, w)"
    by (simp add: signal_add_dependent_def Let_def)
qed

theorem signal_add_dependent_twice_witness:
  "(\<exists>w1. signal_add_dependent sig_full 0x2000 0x4000 True = (True, w1) \<and>
      signal_add_dependent w1 0x2000 0x4000 False = (True, w1) \<and>
      length (dependents (sigs w1 0x2000)) = 9 \<and>
      count_list (dependents (sigs w1 0x2000)) 0x4000 = 1) \<and>
   signal_add_dependent sig_demo 0x2000 0x3000 False = (True, sig_demo) \<and>
   count_list (dependents (sigs sig_demo 0x2000)) 0x3000 = 1 \<and>
   0x4100 \<notin> set (dependents (sigs sig_full 0x2000)) \<and>
   signal_add_dependent sig_full 0x2000 0x4100 False = (False, sig_full)"
proof -
  from signal_add_dependent_twice [of "0x2000" "0x4000" sig_full True False]
  obtain w1 where a: "signal_add_dependent sig_full 0x2000 0x4000 True = (True, w1)"
    "signal_add_dependent w1 0x2000 0x4000 False = (True, w1)"
    "count_list (dependents (sigs w1 0x2000)) 0x4000 = 1"
    by (auto simp: sig_full_def)
  from a(1) have "length (dependents (sigs w1 0x2000)) = 9"
    by (auto simp: signal_add_dependent_def sig_full_def Let_def)
  moreover have "signal_add_dependent sig_demo 0x2000 0x3000 False = (True, sig_demo) \<and>
      count_list (dependents (sigs sig_demo 0x2000)) 0x3000 = 1"
  proof -
    have p: "(0x2000 :: addr) \<noteq> 0 \<and> (0x3000 :: addr) \<noteq> 0 \<and>
        count_list (dependents (sigs sig_demo 0x2000)) 0x3000 \<le> 1 \<and>
        (False \<or> 0x3000 \<in> set (dependents (sigs sig_demo 0x2000)) \<or>
         length (dependents (sigs sig_demo 0x2000)) < dependent_capacity (sigs sig_demo 0x2000))"
      by (simp add: sig_demo_def)
    from signal_add_dependent_twice [of "0x2000" "0x3000" sig_demo False False] p
    obtain w1 where b: "signal_add_dependent sig_demo 0x2000 0x3000 False = (True, w1)"
      "count_list (dependents (sigs w1 0x2000)) 0x3000 = 1" by blast
    have "signal_add_dependent sig_demo 0x2000 0x3000 False = (True, sig_demo)"
      by (simp add: signal_add_dependent_def sig_demo_def Let_def)
    with b show ?thesis by simp
  qed
  moreover have n: "0x4100 \<notin> set (dependents (sigs sig_full 0x2000))"
    by (simp add: sig_full_def)
  moreover from signal_add_dependent_twice [of "0x2000" "0x4100" sig_full False False] n
  have "signal_add_dependent sig_full 0x2000 0x4100 False = (False, sig_full)"
    by (simp add: sig_full_def)
  ultimately show ?thesis using a by blast
qed

section \<open>Actors: proofs\<close>











lemmas actor_eval_defs =
  actor_send_def actor_schedule_def scheduler_visit_def message_queue_put_def
  message_queue_get_def message_queue_empty_def message_queue_full_def
  message_queue_create_def


lemma scheduler_rounds_numeral:
  "scheduler_rounds r l a (numeral k) = scheduler_rounds r l a (Suc (pred_numeral k))"
  by (simp add: numeral_eq_Suc)

text \<open>
  An envelope that is sent twice is delivered twice and freed twice: the second
  \<open>free\<close> is of a block that is no longer live.
\<close>

lemma repeated_envelope_freed_twice:
  "\<exists>a1. send_all True (Some actor_demo) [0x6000, 0x6000] = Returns ([True, True], a1) \<and>
     scheduler_rounds True {0x6000} a1 2 = Returns (Inl (Invalid_Free 0x6000))"
  by (simp add: actor_eval_defs libc_free_def actor_demo_def scheduler_rounds_numeral)




text \<open>
  C6 (send blocking and shutdown), at the input where the code departs from it. The system
  is running and the mailbox is full; a thread calls \<open>actor_send\<close> with a third message and
  suspends in \<open>pthread_cond_wait\<close> (the first half of the claim). Then \<open>actors_stop\<close> runs:
  the flag is clear, and the caller is still suspended, however long the threads run; its
  send does not return. Had \<open>actors_stop\<close> broadcast on \<open>not_full\<close>, the caller would have
  tested the flag and returned false, as the claim says.
\<close>

theorem blocked_sender_not_woken_by_actors_stop:
  "callers (run_threads blocked_demo) = [Suspended 0x6200] \<and>
   running (actors_stop (run_threads blocked_demo)) = False \<and>
   callers (actors_stop (run_threads blocked_demo)) = [Suspended 0x6200] \<and>
   callers (run_threads (run_threads (actors_stop (run_threads blocked_demo)))) =
     [Suspended 0x6200] \<and>
   callers (run_threads (broadcast_not_full (actors_stop (run_threads blocked_demo)))) =
     [Finished False]"
  by (simp add: run_threads_def actors_stop_def broadcast_not_full_def caller_run_def
        message_queue_put_def message_queue_full_def blocked_demo_def)

text \<open>Whatever the mailbox and the callers are, \<open>actors_stop\<close> wakes nobody.\<close>

lemma actors_stop_wakes_nobody:
  "callers (actors_stop s) = callers s \<and> box (actors_stop s) = box s"
  by (simp add: actors_stop_def)

lemma suspended_caller_stays:
  "caller_run r q (Suspended m) = (Suspended m, q)"
  by (simp add: caller_run_def)

text \<open>A send to a full mailbox of a running system blocks.\<close>

lemma send_to_full_mailbox_blocks:
  "mailbox a = Some q \<Longrightarrow> capacity q \<le> count q \<Longrightarrow> m \<noteq> 0 \<Longrightarrow>
   actor_send True (Some a) m = Waits"
  by (simp add: actor_send_def message_queue_put_def message_queue_full_def)

section \<open>Boxed objects: proofs\<close>

lemma length_flat: "length (flat kvs) = 2 * length kvs"
  by (induction kvs) auto

lemma flat_append: "flat (xs @ ys) = flat xs @ flat ys"
  by (induction xs) auto

lemma keys_assign: "fst ` set (assign k v kvs) = insert k (fst ` set kvs)"
proof (induction kvs)
  case Nil
  show ?case by simp
next
  case (Cons p kvs)
  obtain k' v' where p: "p = (k', v')" by (cases p)
  show ?case using Cons.IH by (auto simp: p)
qed

lemma length_assign:
  "length (assign k v kvs) = (if k \<in> fst ` set kvs then length kvs else Suc (length kvs))"
proof (induction kvs)
  case Nil
  show ?case by simp
next
  case (Cons p kvs)
  obtain k' v' where p: "p = (k', v')" by (cases p)
  show ?case using Cons.IH by (auto simp: p)
qed

lemma distinct_assign: "distinct (map fst kvs) \<Longrightarrow> distinct (map fst (assign k v kvs))"
  by (induction kvs) (auto simp: keys_assign)

lemma map_of_assign: "map_of (assign k v kvs) = (map_of kvs)(k \<mapsto> v)"
  by (induction kvs) (auto simp: fun_eq_iff)

text \<open>Seen through the strings behind the key pointers, the object sets a key as
  \<open>assign\<close> does.\<close>

lemma by_string_assign_ptr:
  "by_string mem (assign_ptr mem k v kvs) = assign (mem k) v (by_string mem kvs)"
proof (induction kvs)
  case Nil
  show ?case by (simp add: by_string_def)
next
  case (Cons p kvs)
  obtain k' v' where p: "p = (k', v')" by (cases p)
  show ?case using Cons.IH by (simp add: p by_string_def)
qed

lemma length_by_string: "length (by_string mem kvs) = length kvs"
  by (simp add: by_string_def)

lemma by_string_Nil: "by_string mem [] = []"
  by (simp add: by_string_def)

lemma ptrs_assign_ptr: "fst ` set (assign_ptr mem k v kvs) \<subseteq> insert k (fst ` set kvs)"
proof (induction kvs)
  case Nil
  show ?case by simp
next
  case (Cons p kvs)
  obtain k' v' where p: "p = (k', v')" by (cases p)
  show ?case using Cons.IH by (auto simp: p)
qed

lemma strcmp_is_0_usable:
  "usable mem a \<Longrightarrow> usable mem b \<Longrightarrow> strcmp_is_0 mem a b = Inr (mem a = mem b)"
  by (auto simp: strcmp_is_0_def usable_def)

text \<open>The loop of set, started behind the pairs \<open>pre\<close>, none of which has the key.\<close>

lemma object_set_from_flat:
  assumes "length pre + length kvs \<le> 128" and "\<forall>k' \<in> fst ` set kvs. usable mem k'"
    and "usable mem key"
  shows "object_set_from mem (2 * length pre)
           (flat pre @ flat kvs @ replicate (257 - 2 * (length pre + length kvs)) 0) key v =
         Inr (if mem key \<in> fst ` set (by_string mem kvs) \<or> length pre + length kvs < 128
          then (True, flat pre @ flat (assign_ptr mem key v kvs) @
                  replicate (257 - 2 * (length pre + length (assign_ptr mem key v kvs))) 0)
          else (False, flat pre @ flat kvs @
                  replicate (257 - 2 * (length pre + length kvs)) 0))"
  using assms(1,2)
proof (induction kvs arbitrary: pre)
  case Nil
  show ?case
  proof (cases "length pre < 128")
    case True
    define z where "z = 255 - 2 * length pre"
    have z: "257 - 2 * length pre = Suc (Suc z)"
      using True by (simp add: z_def)
    have "(flat pre @ replicate (Suc (Suc z)) 0) ! (2 * length pre) = 0"
      by (simp add: nth_append length_flat)
    moreover have "(flat pre @ replicate (Suc (Suc z)) 0)
        [2 * length pre := key, 2 * length pre + 1 := v]
        = flat pre @ key # v # replicate z 0"
      by (simp add: list_update_append length_flat)
    moreover have "257 - 2 * (length pre + 1) = z" using z by simp
    ultimately show ?thesis
      using True z
      by (subst object_set_from.simps) (simp add: slot_capacity_def Let_def by_string_def)
  next
    case False
    then show ?thesis
      using Nil by (subst object_set_from.simps) (simp add: slot_capacity_def by_string_def)
  qed
next
  case (Cons p kvs)
  obtain k v' where p: "p = (k, v')" by (cases p)
  let ?z = "replicate (257 - 2 * (length pre + length (p # kvs))) 0"
  from Cons.prems have i: "2 * length pre < slot_capacity" by (simp add: slot_capacity_def)
  from Cons.prems(2) have uk: "usable mem k" by (simp add: p)
  then have k0: "k \<noteq> 0" by (simp add: usable_def)
  have c0: "(flat pre @ flat (p # kvs) @ ?z) ! (2 * length pre) = k"
    by (simp add: nth_append length_flat p)
  have cmp: "strcmp_is_0 mem k key = Inr (mem k = mem key)"
    using uk assms(3) by (rule strcmp_is_0_usable)
  show ?case
  proof (cases "mem k = mem key")
    case True
    have "(flat pre @ flat (p # kvs) @ ?z)[2 * length pre + 1 := v]
        = flat pre @ k # v # flat kvs @ ?z"
      by (simp add: list_update_append length_flat p)
    then show ?thesis
      using True i c0 k0 cmp p
      by (subst object_set_from.simps) (simp add: Let_def by_string_def)
  next
    case False
    let ?pre = "pre @ [p]"
    have e: "flat ?pre @ flat kvs @ replicate (257 - 2 * (length ?pre + length kvs)) 0
        = flat pre @ flat (p # kvs) @ ?z"
      by (simp add: flat_append p)
    from Cons.prems have "length ?pre + length kvs \<le> 128"
      and "\<forall>k' \<in> fst ` set kvs. usable mem k'" by simp_all
    from Cons.IH [OF this, unfolded e]
    have "object_set_from mem (2 * length pre + 2) (flat pre @ flat (p # kvs) @ ?z) key v =
       Inr (if mem key \<in> fst ` set (by_string mem kvs) \<or> length ?pre + length kvs < 128
        then (True, flat ?pre @ flat (assign_ptr mem key v kvs) @
                replicate (257 - 2 * (length ?pre + length (assign_ptr mem key v kvs))) 0)
        else (False, flat pre @ flat (p # kvs) @ ?z))"
      by (simp add: algebra_simps)
    then show ?thesis
      using False i c0 k0 cmp p
      by (subst object_set_from.simps) (auto simp: Let_def flat_append by_string_def)
  qed
qed

lemma object_get_from_flat:
  assumes "length pre + length kvs \<le> 128" and "\<forall>k' \<in> fst ` set kvs. usable mem k'"
    and "usable mem key"
  shows "object_get_from mem (2 * length pre)
           (flat pre @ flat kvs @ replicate (257 - 2 * (length pre + length kvs)) 0) key =
         Inr (case map_of (by_string mem kvs) (mem key) of None \<Rightarrow> 0 | Some v \<Rightarrow> v)"
  using assms(1,2)
proof (induction kvs arbitrary: pre)
  case Nil
  show ?case
  proof (cases "length pre < 128")
    case True
    define z where "z = 256 - 2 * length pre"
    have z: "257 - 2 * length pre = Suc z"
      using True by (simp add: z_def)
    have "(flat pre @ replicate (Suc z) 0) ! (2 * length pre) = 0"
      by (simp add: nth_append length_flat)
    then show ?thesis
      using True z
      by (subst object_get_from.simps) (simp add: slot_capacity_def Let_def by_string_def)
  next
    case False
    then show ?thesis
      using Nil by (subst object_get_from.simps) (simp add: slot_capacity_def by_string_def)
  qed
next
  case (Cons p kvs)
  obtain k v' where p: "p = (k, v')" by (cases p)
  let ?z = "replicate (257 - 2 * (length pre + length (p # kvs))) 0"
  from Cons.prems have i: "2 * length pre < slot_capacity" by (simp add: slot_capacity_def)
  from Cons.prems(2) have uk: "usable mem k" by (simp add: p)
  then have k0: "k \<noteq> 0" by (simp add: usable_def)
  have c0: "(flat pre @ flat (p # kvs) @ ?z) ! (2 * length pre) = k"
    by (simp add: nth_append length_flat p)
  have c1: "(flat pre @ flat (p # kvs) @ ?z) ! (2 * length pre + 1) = v'"
    by (simp add: nth_append length_flat p)
  have cmp: "strcmp_is_0 mem k key = Inr (mem k = mem key)"
    using uk assms(3) by (rule strcmp_is_0_usable)
  show ?case
  proof (cases "mem k = mem key")
    case True
    then show ?thesis
      using i c0 c1 k0 cmp p
      by (subst object_get_from.simps) (simp add: Let_def by_string_def)
  next
    case False
    let ?pre = "pre @ [p]"
    have e: "flat ?pre @ flat kvs @ replicate (257 - 2 * (length ?pre + length kvs)) 0
        = flat pre @ flat (p # kvs) @ ?z"
      by (simp add: flat_append p)
    from Cons.prems have "length ?pre + length kvs \<le> 128"
      and "\<forall>k' \<in> fst ` set kvs. usable mem k'" by simp_all
    from Cons.IH [OF this, unfolded e]
    have "object_get_from mem (2 * length pre + 2) (flat pre @ flat (p # kvs) @ ?z) key =
       Inr (case map_of (by_string mem kvs) (mem key) of None \<Rightarrow> 0 | Some v \<Rightarrow> v)"
      by (simp add: algebra_simps)
    then show ?thesis
      using False i c0 k0 cmp p
      by (subst object_get_from.simps) (simp add: Let_def by_string_def)
  qed
qed

lemma vela_object_set_repr:
  assumes "length kvs \<le> 128" and "\<forall>k' \<in> fst ` set kvs. usable mem k'" and "usable mem k"
  shows "vela_object_set mem (Some (object_repr kvs)) k v =
         Inr (if mem k \<in> fst ` set (by_string mem kvs) \<or> length kvs < 128
          then (True, Some (object_repr (assign_ptr mem k v kvs)))
          else (False, Some (object_repr kvs)))"
  using object_set_from_flat [of "[]" kvs mem k v] assms
  by (simp add: vela_object_set_def object_repr_def object_cells_def usable_def)

lemma vela_object_get_repr:
  assumes "length kvs \<le> 128" and "\<forall>k' \<in> fst ` set kvs. usable mem k'" and "usable mem k"
  shows "vela_object_get mem (Some (object_repr kvs)) k =
         Inr (case map_of (by_string mem kvs) (mem k) of None \<Rightarrow> 0 | Some v \<Rightarrow> v)"
  using object_get_from_flat [of "[]" kvs mem k] assms
  by (simp add: vela_object_get_def object_repr_def object_cells_def usable_def)

lemma length_distinct_keys: "distinct (map fst kvs) \<Longrightarrow> length kvs = card (fst ` set kvs)"
  using distinct_card [of "map fst kvs"] by simp

text \<open>The pairs an object stores after a sequence of sets.\<close>

lemma stored_after:
  "map_of (fold (\<lambda>(k, v). assign k v) ops kvs) = map_of kvs ++ map_of (rev ops)"
  "fst ` set (fold (\<lambda>(k, v). assign k v) ops kvs) = fst ` set kvs \<union> fst ` set ops"
  "distinct (map fst kvs) \<Longrightarrow> distinct (map fst (fold (\<lambda>(k, v). assign k v) ops kvs))"
proof (induction ops arbitrary: kvs)
  case Nil
  { case 1 show ?case by simp }
  { case 2 show ?case by simp }
  { case 3 then show ?case by simp }
next
  case (Cons p ops)
  obtain k v where p: "p = (k, v)" by (cases p)
  { case 1
    show ?case
      by (auto simp: p Cons.IH(1) map_of_assign fun_eq_iff map_add_def split: option.splits) }
  { case 2
    show ?case by (simp add: p Cons.IH(2) keys_assign) }
  { case 3
    then show ?case by (simp add: p Cons.IH(3) distinct_assign) }
qed

lemma by_string_fold:
  "by_string mem (fold (\<lambda>(k, v). assign_ptr mem k v) ops kvs) =
     fold (\<lambda>(k, v). assign k v) (by_string mem ops) (by_string mem kvs)"
proof (induction ops arbitrary: kvs)
  case Nil
  show ?case by (simp add: by_string_def)
next
  case (Cons p ops)
  obtain k v where p: "p = (k, v)" by (cases p)
  have "by_string mem (p # ops) = (mem k, v) # by_string mem ops"
    by (simp add: by_string_def p)
  then show ?case
    by (simp add: p Cons.IH by_string_assign_ptr)
qed

lemma ptrs_fold:
  "fst ` set (fold (\<lambda>(k, v). assign_ptr mem k v) ops kvs) \<subseteq> fst ` set kvs \<union> fst ` set ops"
proof (induction ops arbitrary: kvs)
  case Nil
  show ?case by simp
next
  case (Cons p ops)
  obtain k v where p: "p = (k, v)" by (cases p)
  from Cons.IH [of "assign_ptr mem k v kvs"] ptrs_assign_ptr [of mem k v kvs]
  show ?case by (auto simp: p)
qed

lemma usable_fold:
  assumes "\<forall>k \<in> fst ` set ops. usable mem k"
  shows "\<forall>k \<in> fst ` set (fold (\<lambda>(k, v). assign_ptr mem k v) ops []). usable mem k"
proof
  fix k
  assume "k \<in> fst ` set (fold (\<lambda>(k, v). assign_ptr mem k v) ops [])"
  with ptrs_fold [of mem ops "[]"] have "k \<in> fst ` set ops" by auto
  with assms show "usable mem k" by blast
qed

lemma object_set_all_repr:
  assumes "distinct (map fst (by_string mem kvs))"
    and "card (fst ` set (by_string mem kvs) \<union> fst ` set (by_string mem ops)) \<le> 128"
    and "\<forall>k \<in> fst ` set kvs \<union> fst ` set ops. usable mem k"
  shows "object_set_all mem (Some (object_repr kvs)) ops =
         Inr (replicate (length ops) True,
          Some (object_repr (fold (\<lambda>(k, v). assign_ptr mem k v) ops kvs)))"
  using assms
proof (induction ops arbitrary: kvs)
  case Nil
  show ?case by simp
next
  case (Cons p ops)
  obtain k v where p: "p = (k, v)" by (cases p)
  let ?K = "fst ` set (by_string mem kvs)"
  have bp: "by_string mem (p # ops) = (mem k, v) # by_string mem ops"
    by (simp add: by_string_def p)
  have fin: "finite (?K \<union> fst ` set (by_string mem (p # ops)))" by simp
  have "card ?K \<le> card (?K \<union> fst ` set (by_string mem (p # ops)))"
    by (rule card_mono [OF fin]) auto
  with Cons.prems have len: "length kvs \<le> 128"
    using length_distinct_keys [of "by_string mem kvs"] by (simp add: length_by_string)
  have room: "length kvs < 128" if "mem k \<notin> ?K"
  proof -
    have "card (insert (mem k) ?K) \<le> card (?K \<union> fst ` set (by_string mem (p # ops)))"
      by (rule card_mono [OF fin]) (auto simp: bp)
    with that Cons.prems show ?thesis
      using length_distinct_keys [of "by_string mem kvs"] by (simp add: length_by_string)
  qed
  from Cons.prems(3) have us: "\<forall>k' \<in> fst ` set kvs. usable mem k'" and uk: "usable mem k"
    by (simp_all add: p)
  have s: "vela_object_set mem (Some (object_repr kvs)) k v =
      Inr (True, Some (object_repr (assign_ptr mem k v kvs)))"
    using room by (auto simp: vela_object_set_repr [OF len us uk])
  have d: "distinct (map fst (by_string mem (assign_ptr mem k v kvs)))"
    unfolding by_string_assign_ptr using Cons.prems(1) by (rule distinct_assign)
  have "fst ` set (by_string mem (assign_ptr mem k v kvs)) \<union> fst ` set (by_string mem ops)
      = ?K \<union> fst ` set (by_string mem (p # ops))"
    unfolding by_string_assign_ptr by (auto simp: keys_assign bp)
  with Cons.prems(2)
  have c: "card (fst ` set (by_string mem (assign_ptr mem k v kvs)) \<union>
      fst ` set (by_string mem ops)) \<le> 128"
    by simp
  have u: "\<forall>k' \<in> fst ` set (assign_ptr mem k v kvs) \<union> fst ` set ops. usable mem k'"
    using Cons.prems(3) ptrs_assign_ptr [of mem k v kvs] by (auto simp: p)
  show ?case
    using Cons.IH [OF d c u] s by (simp add: p)
qed

lemma object_set_all_append:
  "object_set_all mem object (xs @ ys) =
     (case object_set_all mem object xs of
        Inl e \<Rightarrow> Inl e
      | Inr (oks, object') \<Rightarrow>
          (case object_set_all mem object' ys of
             Inl e \<Rightarrow> Inl e
           | Inr (oks', object'') \<Rightarrow> Inr (oks @ oks', object'')))"
proof (induction xs arbitrary: object)
  case Nil
  show ?case by (simp split: prod.splits sum.splits)
next
  case (Cons p xs)
  obtain k v where p: "p = (k, v)" by (cases p)
  show ?case by (simp add: p Cons.IH split: prod.splits sum.splits)
qed

lemma object_repr_Nil: "object_repr [] = replicate object_cells 0"
  by (simp add: object_repr_def)

subsection \<open>The 129 keys\<close>

lemma unat_key_ptr: "i \<le> 129 \<Longrightarrow> unat (key_ptr i) = 0x700000 + i"
proof -
  assume i: "i \<le> 129"
  then have "unat (of_nat i :: addr) = i" by (simp add: unat_of_nat)
  then show ?thesis
    unfolding key_ptr_def using i by (subst unat_add_lem [THEN iffD1]) simp_all
qed

lemma key_mem_ptr: "i \<le> 129 \<Longrightarrow> key_mem (key_ptr i) = Some (replicate (129 - i) CHR ''k'')"
  by (simp add: key_mem_def word_le_nat_alt unat_key_ptr)

lemma key_ptr_usable: "i \<le> 129 \<Longrightarrow> usable key_mem (key_ptr i)"
proof -
  assume i: "i \<le> 129"
  from unat_key_ptr [OF i] have "key_ptr i \<noteq> 0" by auto
  with key_mem_ptr [OF i] show ?thesis by (simp add: usable_def)
qed

lemma many_keys_Suc: "many_keys (Suc n) = many_keys n @ [(key_ptr n, 1)]"
  by (simp add: many_keys_def)

lemma many_keys_length: "length (many_keys n) = n"
  by (simp add: many_keys_def)

lemma many_keys_strings:
  assumes "n \<le> 129"
  shows "fst ` set (by_string key_mem (many_keys n)) =
         (\<lambda>i. Some (replicate (129 - i) CHR ''k'')) ` {0..<n}"
proof -
  have "fst ` set (by_string key_mem (many_keys n)) = (\<lambda>i. key_mem (key_ptr i)) ` {0..<n}"
    by (simp add: many_keys_def by_string_def image_image)
  also have "\<dots> = (\<lambda>i. Some (replicate (129 - i) CHR ''k'')) ` {0..<n}"
    using assms by (intro image_cong) (simp_all add: key_mem_ptr)
  finally show ?thesis .
qed

lemma many_keys_new:
  assumes "n \<le> 129"
  shows "key_mem (key_ptr n) \<notin> fst ` set (by_string key_mem (many_keys n))"
proof
  assume "key_mem (key_ptr n) \<in> fst ` set (by_string key_mem (many_keys n))"
  then obtain i where "i < n"
    and "replicate (129 - n) CHR ''k'' = replicate (129 - i) CHR ''k''"
    using assms by (auto simp: many_keys_strings key_mem_ptr)
  then have "length (replicate (129 - n) CHR ''k'') = length (replicate (129 - i) CHR ''k'')"
    by simp
  with \<open>i < n\<close> assms show False by simp
qed

lemma by_string_snoc: "by_string mem (xs @ [(k, v)]) = by_string mem xs @ [(mem k, v)]"
  by (simp add: by_string_def)

lemma many_keys_distinct: "n \<le> 129 \<Longrightarrow> distinct (map fst (by_string key_mem (many_keys n)))"
proof (induction n)
  case 0
  show ?case by (simp add: many_keys_def by_string_def)
next
  case (Suc n)
  then have n: "n \<le> 129" by simp
  from Suc.IH [OF n] many_keys_new [OF n] show ?case
    by (simp add: many_keys_Suc by_string_snoc)
qed

lemma many_keys_card: "n \<le> 129 \<Longrightarrow> card (fst ` set (by_string key_mem (many_keys n))) = n"
  using length_distinct_keys [OF many_keys_distinct, of n]
  by (simp add: many_keys_length length_by_string)

lemma many_keys_usable: "n \<le> 129 \<Longrightarrow> \<forall>k \<in> fst ` set (many_keys n). usable key_mem k"
  by (auto simp: many_keys_def key_ptr_usable)

text \<open>What is in a fresh object after the first 128 of the keys were set.\<close>

lemma many_keys_128_stored:
  "\<exists>kvs. object_set_all key_mem (Some (replicate object_cells 0)) (many_keys 128) =
           Inr (replicate 128 True, Some (object_repr kvs)) \<and>
         length kvs = 128 \<and> (\<forall>k \<in> fst ` set kvs. usable key_mem k) \<and>
         fst ` set (by_string key_mem kvs) = fst ` set (by_string key_mem (many_keys 128))"
proof -
  let ?kvs = "fold (\<lambda>(k, v). assign_ptr key_mem k v) (many_keys 128) []"
  have u: "\<forall>k \<in> fst ` set (many_keys 128). usable key_mem k"
    by (rule many_keys_usable) simp
  have "object_set_all key_mem (Some (object_repr [])) (many_keys 128) =
      Inr (replicate (length (many_keys 128)) True, Some (object_repr ?kvs))"
    using u by (intro object_set_all_repr) (simp_all add: many_keys_card by_string_Nil)
  moreover have b: "by_string key_mem ?kvs =
      fold (\<lambda>(k, v). assign k v) (by_string key_mem (many_keys 128)) []"
    by (simp add: by_string_fold by_string_Nil)
  have k: "fst ` set (by_string key_mem ?kvs) = fst ` set (by_string key_mem (many_keys 128))"
    unfolding b by (simp add: stored_after(2))
  moreover have "distinct (map fst (by_string key_mem ?kvs))"
    unfolding b by (rule stored_after(3)) simp
  then have "length ?kvs = 128"
    using length_distinct_keys [of "by_string key_mem ?kvs"]
    by (simp add: k many_keys_card length_by_string)
  moreover have "\<forall>k \<in> fst ` set ?kvs. usable key_mem k"
    using u by (rule usable_fold)
  ultimately show ?thesis
    by (auto simp: object_repr_Nil many_keys_length)
qed

lemma vela_object_create_cells:
  "vela_object_create s = Some (Inr (p, cells, s')) \<Longrightarrow> p \<noteq> 0 \<Longrightarrow>
   cells = replicate object_cells 0"
  by (auto simp: vela_object_create_def Let_def split: option.splits if_splits sum.splits)

lemma gc_runtime_reached: "gc_init gc_uninit (1024 * 1024) True 0x100000 True = (True, gc_runtime)"
  by (simp add: gc_init_def gc_runtime_def gc_uninit_def)

lemma vela_object_create_runtime:
  "\<exists>s'. vela_object_create gc_runtime = Some (Inr (0x100018, replicate object_cells 0, s'))"
  by (simp add: vela_object_create_def vela_gc_alloc_def object_size_def gc_alloc_def
        bump_alloc_def gc_get_header_def gc_is_heap_ptr_def gc_runtime_def gc_uninit_def
        sizeof_gc_header_t_def Let_def)

text \<open>
  The object holds the caller's pointer, not the key. With the string \<open>a\<close> at \<open>0x7000\<close>, a
  set through that pointer stores the pair, and a get with another pointer to a string \<open>a\<close>
  finds it. Once the caller has overwritten the buffer at \<open>0x7000\<close> with \<open>b\<close>, the same get
  returns \<open>NULL\<close>, and a set through \<open>0x7000\<close>, now of the key \<open>b\<close>, replaces the value in
  the slot that was taken for \<open>a\<close>.
\<close>

lemma object_stores_key_pointer:
  "vela_object_set abc_mem (Some (replicate object_cells 0)) 0x7000 1 =
     Inr (True, Some (object_repr [(0x7000, 1)])) \<and>
   vela_object_get abc_mem (Some (object_repr [(0x7000, 1)])) 0x7030 = Inr 1 \<and>
   vela_object_get abc_mem_reused (Some (object_repr [(0x7000, 1)])) 0x7030 = Inr 0 \<and>
   vela_object_set abc_mem_reused (Some (object_repr [(0x7000, 1)])) 0x7000 2 =
     Inr (True, Some (object_repr [(0x7000, 2)]))"
proof -
  have u: "usable abc_mem 0x7000" "usable abc_mem 0x7030"
    "usable abc_mem_reused 0x7000" "usable abc_mem_reused 0x7030"
    by (simp_all add: usable_def abc_mem_def abc_mem_reused_def)
  have "vela_object_set abc_mem (Some (object_repr [])) 0x7000 1 =
      Inr (True, Some (object_repr [(0x7000, 1)]))"
    using u by (subst vela_object_set_repr) simp_all
  moreover have "vela_object_get abc_mem (Some (object_repr [(0x7000, 1)])) 0x7030 = Inr 1"
    using u by (subst vela_object_get_repr) (simp_all add: by_string_def abc_mem_def)
  moreover have "vela_object_get abc_mem_reused (Some (object_repr [(0x7000, 1)])) 0x7030 = Inr 0"
    using u by (subst vela_object_get_repr)
      (simp_all add: by_string_def abc_mem_def abc_mem_reused_def)
  moreover have "vela_object_set abc_mem_reused (Some (object_repr [(0x7000, 1)])) 0x7000 2 =
      Inr (True, Some (object_repr [(0x7000, 2)]))"
    using u by (subst vela_object_set_repr) (simp_all add: by_string_def)
  ultimately show ?thesis by (simp add: object_repr_Nil)
qed

subsection \<open>Claims about boxed objects\<close>

text \<open>
  C9, as stated, fails: a fresh object takes 128 distinct keys, not 256. Of the 129
  distinct keys at \<open>key_ptr 0\<close>, ..., \<open>key_ptr 128\<close>, set one after the other on a fresh
  object, the first 128 are stored and the set of the 129th reports failure.
\<close>

theorem object_set_fails_at_129th_key:
  "length (many_keys 129) = 129 \<and> list_all (usable key_mem) (map fst (many_keys 129)) \<and>
   distinct (map fst (by_string key_mem (many_keys 129))) \<and>
   map_sum id fst (object_set_all key_mem (Some (replicate object_cells 0)) (many_keys 129)) =
     Inr (replicate 128 True @ [False])"
proof -
  from many_keys_128_stored obtain kvs
    where a: "object_set_all key_mem (Some (replicate object_cells 0)) (many_keys 128) =
        Inr (replicate 128 True, Some (object_repr kvs))"
      and l: "length kvs = 128" and u: "\<forall>k \<in> fst ` set kvs. usable key_mem k"
      and k: "fst ` set (by_string key_mem kvs) = fst ` set (by_string key_mem (many_keys 128))"
    by blast
  have "vela_object_set key_mem (Some (object_repr kvs)) (key_ptr 128) 1 =
      Inr (False, Some (object_repr kvs))"
    using many_keys_new [of 128] l k u key_ptr_usable [of 128]
    by (subst vela_object_set_repr) simp_all
  moreover have "many_keys 129 = many_keys 128 @ [(key_ptr 128, 1)]"
    using many_keys_Suc [of 128] by simp
  ultimately have "map_sum id fst
      (object_set_all key_mem (Some (replicate object_cells 0)) (many_keys 129)) =
      Inr (replicate 128 True @ [False])"
    using a by (simp add: object_set_all_append)
  moreover have "list_all (usable key_mem) (map fst (many_keys 129))"
    using many_keys_usable [of 129] by (simp add: list_all_iff)
  ultimately show ?thesis
    by (simp add: many_keys_length many_keys_distinct)
qed

text \<open>
  C9, amended, with 128 in place of 256 and for keys that stay in memory. Let a
  sequence of sets on a freshly created object pass non-null pointers to strings, at most
  128 different strings in all, and let the strings in memory (\<open>mem\<close>) be the same at
  every call: the object keeps the callers' key pointers and reads the keys through them.
  Then every set succeeds; afterwards \<open>vela_object_get\<close> returns for every key the value
  most recently set for it (and \<open>NULL\<close> for a key never set), whichever pointer to the
  key is passed; and once 128 different keys are stored, a set of any further key fails
  and leaves the object as it is.
\<close>

theorem object_capacity_128_pairs:
  assumes "vela_object_create s = Some (Inr (p, cells, s'))" and "p \<noteq> 0"
    and "\<forall>k \<in> fst ` set ops. usable mem k"
    and "card (fst ` set (by_string mem ops)) \<le> 128"
  shows "\<exists>obj. object_set_all mem (Some cells) ops = Inr (replicate (length ops) True, Some obj) \<and>
           (\<forall>k. usable mem k \<longrightarrow>
              vela_object_get mem (Some obj) k =
                Inr (case map_of (rev (by_string mem ops)) (mem k) of None \<Rightarrow> 0 | Some v \<Rightarrow> v)) \<and>
           (card (fst ` set (by_string mem ops)) = 128 \<longrightarrow>
              (\<forall>k v. usable mem k \<and> mem k \<notin> fst ` set (by_string mem ops) \<longrightarrow>
                 vela_object_set mem (Some obj) k v = Inr (False, Some obj)))"
proof -
  let ?kvs = "fold (\<lambda>(k, v). assign_ptr mem k v) ops []"
  from vela_object_create_cells [OF assms(1,2)] have c: "cells = object_repr []"
    by (simp add: object_repr_Nil)
  have a: "object_set_all mem (Some cells) ops =
      Inr (replicate (length ops) True, Some (object_repr ?kvs))"
    unfolding c using assms(3,4) by (intro object_set_all_repr) (simp_all add: by_string_Nil)
  have b: "by_string mem ?kvs = fold (\<lambda>(k, v). assign k v) (by_string mem ops) []"
    by (simp add: by_string_fold by_string_Nil)
  have k: "fst ` set (by_string mem ?kvs) = fst ` set (by_string mem ops)"
    unfolding b by (simp add: stored_after(2))
  have "distinct (map fst (by_string mem ?kvs))"
    unfolding b by (rule stored_after(3)) simp
  then have l: "length ?kvs = card (fst ` set (by_string mem ops))"
    using length_distinct_keys [of "by_string mem ?kvs"] by (simp add: k length_by_string)
  with assms(4) have le: "length ?kvs \<le> 128" by simp
  have us: "\<forall>k' \<in> fst ` set ?kvs. usable mem k'"
    using assms(3) by (rule usable_fold)
  have g: "vela_object_get mem (Some (object_repr ?kvs)) k =
      Inr (case map_of (rev (by_string mem ops)) (mem k) of None \<Rightarrow> 0 | Some v \<Rightarrow> v)"
    if "usable mem k" for k
    unfolding vela_object_get_repr [OF le us that] b by (simp add: stored_after(1))
  have f: "vela_object_set mem (Some (object_repr ?kvs)) k v = Inr (False, Some (object_repr ?kvs))"
    if "card (fst ` set (by_string mem ops)) = 128"
      and "usable mem k \<and> mem k \<notin> fst ` set (by_string mem ops)" for k v
    using that l k by (subst vela_object_set_repr [OF le us]) simp_all
  from a g f show ?thesis by blast
qed

theorem object_capacity_128_pairs_witness:
  "(\<exists>s'. vela_object_create gc_runtime = Some (Inr (0x100018, replicate object_cells 0, s'))) \<and>
   (\<exists>obj. object_set_all abc_mem (Some (replicate object_cells 0))
             [(0x7000, 1), (0x7010, 2), (0x7030, 3)] = Inr ([True, True, True], Some obj) \<and>
      vela_object_get abc_mem (Some obj) 0x7000 = Inr 3 \<and>
      vela_object_get abc_mem (Some obj) 0x7010 = Inr 2 \<and>
      vela_object_get abc_mem (Some obj) 0x7020 = Inr 0) \<and>
   (\<exists>obj. object_set_all key_mem (Some (replicate object_cells 0)) (many_keys 128) =
             Inr (replicate 128 True, Some obj) \<and>
      vela_object_set key_mem (Some obj) (key_ptr 128) 1 = Inr (False, Some obj))"
proof -
  from vela_object_create_runtime obtain s'
    where c: "vela_object_create gc_runtime = Some (Inr (0x100018, replicate object_cells 0, s'))"
    by blast
  have n: "(0x100018 :: addr) \<noteq> 0" by simp
  let ?ops = "[(0x7000, 1), (0x7010, 2), (0x7030, 3)] :: (addr \<times> addr) list"
  have u: "\<forall>k \<in> fst ` set ?ops. usable abc_mem k"
    and u': "usable abc_mem 0x7000" "usable abc_mem 0x7010" "usable abc_mem 0x7020"
    by (simp_all add: usable_def abc_mem_def)
  have bs: "by_string abc_mem ?ops = [(Some ''a'', 1), (Some ''b'', 2), (Some ''a'', 3)]"
    by (simp add: by_string_def abc_mem_def)
  have "card (fst ` set (by_string abc_mem ?ops)) \<le> 128"
    unfolding bs by (simp add: card_insert_if)
  from object_capacity_128_pairs [OF c n u this] u'
  have a: "\<exists>obj. object_set_all abc_mem (Some (replicate object_cells 0)) ?ops =
             Inr ([True, True, True], Some obj) \<and>
      vela_object_get abc_mem (Some obj) 0x7000 = Inr 3 \<and>
      vela_object_get abc_mem (Some obj) 0x7010 = Inr 2 \<and>
      vela_object_get abc_mem (Some obj) 0x7020 = Inr 0"
    unfolding bs by (auto simp: numeral_3_eq_3 abc_mem_def)
  have "card (fst ` set (by_string key_mem (many_keys 128))) \<le> 128"
    by (simp add: many_keys_card)
  from object_capacity_128_pairs [OF c n many_keys_usable this]
    many_keys_new [of 128] key_ptr_usable [of 128]
  have b: "\<exists>obj. object_set_all key_mem (Some (replicate object_cells 0)) (many_keys 128) =
             Inr (replicate 128 True, Some obj) \<and>
      vela_object_set key_mem (Some obj) (key_ptr 128) 1 = Inr (False, Some obj)"
    by (auto simp: many_keys_card many_keys_length)
  from c a b show ?thesis by blast
qed

end
